theory Spec2Isabelle
  imports Main "HOL-Library.Word"
begin

section \<open>Data model\<close>

text \<open>
  The container \<open>drift_tree\<close> of \<open>drift_tree.h\<close>, at its default instantiation
  \<open>_drift_t = size_t\<close> (the one the tests use): a drift and a level are 64-bit unsigned
  machine integers, so \<open>+\<close> and \<open>-\<close> wrap around. A tree is the vector \<open>vector_m\<close>,
  modelled as a list of nodes; an iterator into the vector is the index of its node
  (\<open>begin()\<close> is 0, \<open>end()\<close> is the length).
\<close>

type_synonym drift_t = "64 word"
type_synonym level_t = "64 word"

record 'a drift_node =
  drift :: drift_t
  data :: 'a

type_synonym 'a drift_tree = "'a drift_node list"

definition is_leaf :: "'a drift_node \<Rightarrow> bool" where
  "is_leaf n = (drift n \<noteq> 0)"

definition has_children :: "'a drift_node \<Rightarrow> bool" where
  "has_children n = (drift n = 0)"

text \<open>
  A failed \<open>assert\<close> is \<open>AssertionFailed\<close>. An access through an iterator that does
  not point to a node of the vector (undefined behaviour in C++) is \<open>InvalidAccess\<close>.
\<close>

datatype error = AssertionFailed | InvalidAccess

definition DRIFT_CHILD :: drift_t where
  "DRIFT_CHILD = 0"

definition DRIFT_SIBLING :: drift_t where
  "DRIFT_SIBLING = 1"

text \<open>\<open>set_drift i d t\<close> is the assignment \<open>t[i].drift = d\<close>.\<close>

definition set_drift :: "nat \<Rightarrow> drift_t \<Rightarrow> 'a drift_tree \<Rightarrow> 'a drift_tree" where
  "set_drift i d t = t[i := (t ! i)\<lparr>drift := d\<rparr>]"

text \<open>\<open>back()\<close> of a non-empty vector.\<close>

definition back_node :: "'a drift_tree \<Rightarrow> 'a drift_node" where
  "back_node t = t ! (length t - 1)"

section \<open>Operations of the container\<close>

definition push_root :: "'a drift_tree \<Rightarrow> 'a \<Rightarrow> 'a drift_tree" where
  "push_root t v =
     (let t1 = \<lparr>drift = 0, data = v\<rparr> # t
      in set_drift (length t1 - 1) (drift (back_node t1) + 1) t1)"

definition push_back_drifted ::
  "'a drift_tree \<Rightarrow> 'a \<Rightarrow> drift_t \<Rightarrow> error + 'a drift_tree" where
  "push_back_drifted t v back_drift =
     (if \<not> 0 < length t then Inl AssertionFailed
      else if \<not> 1 + drift (back_node t) > back_drift then Inl AssertionFailed
      else let d = 1 + drift (back_node t) - back_drift;
               t1 = set_drift (length t - 1) back_drift t
           in Inr (t1 @ [\<lparr>drift = d, data = v\<rparr>]))"

definition push_back_child :: "'a drift_tree \<Rightarrow> 'a \<Rightarrow> error + 'a drift_tree" where
  "push_back_child t v = push_back_drifted t v DRIFT_CHILD"

definition push_back_sibling :: "'a drift_tree \<Rightarrow> 'a \<Rightarrow> error + 'a drift_tree" where
  "push_back_sibling t v = push_back_drifted t v DRIFT_SIBLING"

definition push_back_level ::
  "'a drift_tree \<Rightarrow> 'a \<Rightarrow> level_t \<Rightarrow> error + 'a drift_tree" where
  "push_back_level t v level =
     (if \<not> 0 < length t then Inl AssertionFailed
      else if \<not> drift (back_node t) > level then Inl AssertionFailed
      else let t1 = set_drift (length t - 1) (drift (back_node t) - level) t
           in Inr (t1 @ [\<lparr>drift = 1 + level, data = v\<rparr>]))"

definition pop_back :: "'a drift_tree \<Rightarrow> error + 'a drift_tree" where
  "pop_back t =
     (if \<not> 1 < length t then Inl AssertionFailed
      else let d = drift (back_node t) - 1;
               t1 = butlast t
           in Inr (set_drift (length t1 - 1) (drift (back_node t1) + d) t1))"

text \<open>
  The operations below take an iterator \<open>i\<close> and return the tree with the iterator
  they return. \<open>emplace\<close> and \<open>insert\<close> at index \<open>k\<close> put the new nodes between
  \<open>take k\<close> and \<open>drop k\<close> of the vector.
\<close>

definition insert_first_child ::
  "'a drift_tree \<Rightarrow> nat \<Rightarrow> 'a \<Rightarrow> error + ('a drift_tree \<times> nat)" where
  "insert_first_child t i v =
     (if i = length t then Inl AssertionFailed
      else if length t < i then Inl InvalidAccess
      else let d = 1 + drift (t ! i);
               t1 = set_drift i 0 t
           in Inr (take (i + 1) t1 @ [\<lparr>drift = d, data = v\<rparr>] @ drop (i + 1) t1, i + 1))"

text \<open>
  The loop \<open>while(--inserted) drift += 1 - (next++)->drift;\<close> of \<open>insert_child_tree\<close>,
  entered with \<open>0 < inserted\<close>.
\<close>

fun insert_child_tree_loop ::
  "'a drift_tree \<Rightarrow> nat \<Rightarrow> nat \<Rightarrow> drift_t \<Rightarrow> nat \<times> drift_t" where
  "insert_child_tree_loop t inserted next d =
     (if inserted - 1 \<noteq> 0
      then insert_child_tree_loop t (inserted - 1) (next + 1) (d + (1 - drift (t ! next)))
      else (next, d))"

declare insert_child_tree_loop.simps [simp del]

definition insert_child_tree ::
  "'a drift_tree \<Rightarrow> nat \<Rightarrow> 'a drift_tree \<Rightarrow> error + ('a drift_tree \<times> nat)" where
  "insert_child_tree t i r =
     (if i = length t then Inl AssertionFailed
      else if length t < i then Inl InvalidAccess
      else let old_count = length t;
               t1 = take (i + 1) t @ r @ drop (i + 1) t;
               next = i + 1;
               inserted = length t1 - old_count
           in if 0 < inserted
              then let i1 = next - 1;
                       d = 1 + drift (t1 ! i1);
                       t2 = set_drift i1 0 t1;
                       (next1, d1) = insert_child_tree_loop t2 inserted next d
                   in Inr (set_drift next1 d1 t2, next1)
              else Inr (t1, next))"

definition insert_sibling ::
  "'a drift_tree \<Rightarrow> nat \<Rightarrow> 'a \<Rightarrow> error + ('a drift_tree \<times> nat)" where
  "insert_sibling t i v =
     (if i = length t then Inl AssertionFailed
      else if length t < i then Inl InvalidAccess
      else Inr (take i t @ [\<lparr>drift = 1, data = v\<rparr>] @ drop i t, i))"

text \<open>
  \<open>erase_leaf\<close> writes to the node before \<open>i\<close>; at \<open>i = begin()\<close> there is none.
\<close>

definition erase_leaf :: "'a drift_tree \<Rightarrow> nat \<Rightarrow> error + ('a drift_tree \<times> nat)" where
  "erase_leaf t i =
     (if i = length t then Inl AssertionFailed
      else if length t < i then Inl InvalidAccess
      else if \<not> is_leaf (t ! i) then Inl AssertionFailed
      else if i = 0 then Inl InvalidAccess
      else let d = drift (t ! i) - 1;
               t1 = set_drift (i - 1) (drift (t ! (i - 1)) + d) t
           in Inr (take i t1 @ drop (i + 1) t1, i))"

section \<open>The subtree view and its iterator\<close>

text \<open>
  \<open>subtree::iterator\<close> holds an iterator into the vector and the number of levels
  still open. A default-constructed iterator (\<open>subtree::iterator::end()\<close>) holds a
  value-initialised vector iterator, which points nowhere: \<open>None\<close>.
\<close>

record st_iterator =
  it_m :: "nat option"
  level_m :: level_t

definition st_iterator_at :: "'a drift_tree \<Rightarrow> nat \<Rightarrow> error + st_iterator" where
  "st_iterator_at t p =
     (if p < length t
      then Inr \<lparr>it_m = Some (p + 1), level_m = (if drift (t ! p) = 0 then 1 else 0)\<rparr>
      else Inl InvalidAccess)"

definition st_end :: st_iterator where
  "st_end = \<lparr>it_m = None, level_m = 0\<rparr>"

definition is_end :: "st_iterator \<Rightarrow> bool" where
  "is_end a = (level_m a = 0)"

definition st_eq :: "st_iterator \<Rightarrow> st_iterator \<Rightarrow> bool" where
  "st_eq a ot = (if is_end a \<or> is_end ot then level_m a = level_m ot else it_m a = it_m ot)"

definition st_neq :: "st_iterator \<Rightarrow> st_iterator \<Rightarrow> bool" where
  "st_neq a ot = (\<not> st_eq a ot)"

text \<open>\<open>operator*\<close>: the node under the cursor.\<close>

definition st_deref :: "'a drift_tree \<Rightarrow> st_iterator \<Rightarrow> error + 'a drift_node" where
  "st_deref t a =
     (case it_m a of
        None \<Rightarrow> Inl InvalidAccess
      | Some c \<Rightarrow> if c < length t then Inr (t ! c) else Inl InvalidAccess)"

text \<open>\<open>operator++\<close> (prefix).\<close>

definition st_inc :: "'a drift_tree \<Rightarrow> st_iterator \<Rightarrow> error + st_iterator" where
  "st_inc t a =
     (case it_m a of
        None \<Rightarrow> Inl InvalidAccess
      | Some c \<Rightarrow>
          if c < length t
          then let l = level_m a + 1
               in Inr \<lparr>it_m = Some (c + 1),
                       level_m = (if l < drift (t ! c) then 0 else l - drift (t ! c))\<rparr>
          else Inl InvalidAccess)"

text \<open>
  The loop \<open>while(st_it != end(st)) { level = st_it.level(); ++st_it; }\<close> of
  \<open>erase_subtree\<close>. The cursor moves forward in every round and \<open>operator++\<close>
  needs a node under it, so the loop ends.
\<close>

function erase_subtree_loop ::
  "'a drift_tree \<Rightarrow> st_iterator \<Rightarrow> level_t \<Rightarrow> error + (st_iterator \<times> level_t)" where
  "erase_subtree_loop t st_it level =
     (if st_neq st_it st_end
      then (case st_inc t st_it of
              Inl e \<Rightarrow> Inl e
            | Inr st_it1 \<Rightarrow> erase_subtree_loop t st_it1 (level_m st_it))
      else Inr (st_it, level))"
  by pat_completeness auto
termination
  by (relation "measure (\<lambda>(t, a, l). length t - (case it_m a of None \<Rightarrow> 0 | Some c \<Rightarrow> c))")
     (auto simp: st_inc_def Let_def split: option.splits if_splits)

declare erase_subtree_loop.simps [simp del]

text \<open>
  \<open>erase_subtree(st)\<close>, the view \<open>st\<close> given by its anchor \<open>p = st.unwrap()\<close>.
  It returns the tree and the iterator \<open>vector_m.erase\<close> returns.
\<close>

definition erase_subtree :: "'a drift_tree \<Rightarrow> nat \<Rightarrow> error + ('a drift_tree \<times> nat)" where
  "erase_subtree t p =
     (case st_iterator_at t p of
        Inl e \<Rightarrow> Inl e
      | Inr st_it \<Rightarrow>
          (case erase_subtree_loop t st_it (level_m st_it) of
             Inl e \<Rightarrow> Inl e
           | Inr (st_it1, level) \<Rightarrow>
               (case (it_m st_it, it_m st_it1) of
                  (Some vec_begin, Some vec_end) \<Rightarrow>
                    if 0 < vec_end \<and> vec_end - 1 < length t
                    then let d = drift (t ! (vec_end - 1)) - level;
                             t1 = set_drift p d t
                         in Inr (take vec_begin t1 @ drop vec_end t1, vec_begin)
                    else Inl InvalidAccess
                | _ \<Rightarrow> Inl InvalidAccess)))"

text \<open>
  Walking a view from \<open>begin(st)\<close> to \<open>end(st)\<close>, as \<open>std::distance\<close>,
  \<open>std::accumulate\<close> and a range-for do: the nodes met, in order.
\<close>

function st_walk :: "'a drift_tree \<Rightarrow> st_iterator \<Rightarrow> error + 'a drift_node list" where
  "st_walk t a =
     (if st_neq a st_end
      then (case st_deref t a of
              Inl e \<Rightarrow> Inl e
            | Inr n \<Rightarrow>
                (case st_inc t a of
                   Inl e \<Rightarrow> Inl e
                 | Inr a1 \<Rightarrow>
                     (case st_walk t a1 of Inl e \<Rightarrow> Inl e | Inr ns \<Rightarrow> Inr (n # ns))))
      else Inr [])"
  by pat_completeness auto
termination
  by (relation "measure (\<lambda>(t, a). length t - (case it_m a of None \<Rightarrow> 0 | Some c \<Rightarrow> c))")
     (auto simp: st_inc_def Let_def split: option.splits if_splits)

declare st_walk.simps [simp del]

definition subtree_nodes :: "'a drift_tree \<Rightarrow> nat \<Rightarrow> error + 'a drift_node list" where
  "subtree_nodes t p =
     (case st_iterator_at t p of Inl e \<Rightarrow> Inl e | Inr a \<Rightarrow> st_walk t a)"

section \<open>Levels and valid trees\<close>

text \<open>
  The level of a node is what the drifts before it add up to: the first node is at
  level 0, a node with drift \<open>d\<close> at level \<open>l\<close> puts the next node at level
  \<open>l + 1 - d\<close>. \<open>level_shift ns\<close> is the change of level across the nodes \<open>ns\<close>.
\<close>

definition level_shift :: "'a drift_node list \<Rightarrow> int" where
  "level_shift ns = (\<Sum>n\<leftarrow>ns. 1 - uint (drift n))"

definition level_of :: "'a drift_tree \<Rightarrow> nat \<Rightarrow> int" where
  "level_of t j = level_shift (take j t)"

text \<open>\<open>levels_ok l ns\<close>: starting at level \<open>l\<close>, no node of \<open>ns\<close> is above level 0.\<close>

fun levels_ok :: "int \<Rightarrow> 'a drift_node list \<Rightarrow> bool" where
  "levels_ok l [] = True"
| "levels_ok l (n # ns) = (0 \<le> l \<and> levels_ok (l + 1 - uint (drift n)) ns)"

text \<open>
  A valid tree: its size fits \<open>size_type\<close>, every node is at level 0 or deeper, and the
  last node closes every level that is open (the level after it is 0 again).
\<close>

definition valid :: "'a drift_tree \<Rightarrow> bool" where
  "valid t = (length t < 2 ^ 64 \<and> levels_ok 0 t \<and> level_of t (length t) = 0)"

text \<open>
  \<open>closes l ns\<close>: the nodes \<open>ns\<close>, the first of them at level \<open>l\<close>, are
  the rest of a valid tree.
\<close>

definition closes :: "int \<Rightarrow> 'a drift_node list \<Rightarrow> bool" where
  "closes l ns = (levels_ok l ns \<and> l + level_shift ns = 0)"

text \<open>
  \<open>span_len l ns\<close>: how many nodes at the front of \<open>ns\<close> are at a level above
  0, the first of them being at level \<open>l\<close>. With \<open>l\<close> the depth below an
  anchor, these are the nodes below the anchor.
\<close>

fun span_len :: "int \<Rightarrow> 'a drift_node list \<Rightarrow> nat" where
  "span_len l [] = 0"
| "span_len l (n # ns) = (if 0 < l then Suc (span_len (l + 1 - uint (drift n)) ns) else 0)"

text \<open>
  Node \<open>j\<close> is a descendant of node \<open>p\<close> when it comes after \<open>p\<close> and every node
  from \<open>p + 1\<close> to \<open>j\<close> is deeper than \<open>p\<close>.
\<close>

definition is_descendant :: "'a drift_tree \<Rightarrow> nat \<Rightarrow> nat \<Rightarrow> bool" where
  "is_descendant t p j =
     (p < j \<and> j < length t \<and> list_all (\<lambda>k. level_of t p < level_of t k) [Suc p..<Suc j])"

text \<open>The number of descendants of node \<open>p\<close>.\<close>

definition subtree_size :: "'a drift_tree \<Rightarrow> nat \<Rightarrow> nat" where
  "subtree_size t p = length (filter (is_descendant t p) [0..<length t])"

section \<open>Sequences of calls\<close>

datatype 'a tree_op =
    PushRoot 'a
  | PushBackDrifted 'a drift_t
  | PushBackChild 'a
  | PushBackSibling 'a
  | PushBackLevel 'a level_t
  | PopBack
  | InsertFirstChild nat 'a
  | InsertChildTree nat "'a drift_node list"
  | InsertSibling nat 'a
  | EraseLeaf nat
  | EraseSubtree nat

text \<open>The tree a call leaves behind; the iterator it returns is dropped.\<close>

definition tree_of :: "error + ('a drift_tree \<times> nat) \<Rightarrow> error + 'a drift_tree" where
  "tree_of r = (case r of Inl e \<Rightarrow> Inl e | Inr (t, i) \<Rightarrow> Inr t)"

fun apply_op :: "'a drift_tree \<Rightarrow> 'a tree_op \<Rightarrow> error + 'a drift_tree" where
  "apply_op t (PushRoot v) = Inr (push_root t v)"
| "apply_op t (PushBackDrifted v back_drift) = push_back_drifted t v back_drift"
| "apply_op t (PushBackChild v) = push_back_child t v"
| "apply_op t (PushBackSibling v) = push_back_sibling t v"
| "apply_op t (PushBackLevel v level) = push_back_level t v level"
| "apply_op t PopBack = pop_back t"
| "apply_op t (InsertFirstChild i v) = tree_of (insert_first_child t i v)"
| "apply_op t (InsertChildTree i r) = tree_of (insert_child_tree t i r)"
| "apply_op t (InsertSibling i v) = tree_of (insert_sibling t i v)"
| "apply_op t (EraseLeaf i) = tree_of (erase_leaf t i)"
| "apply_op t (EraseSubtree p) = tree_of (erase_subtree t p)"

text \<open>
  What a call needs of its arguments beyond its assertions: the range given to
  \<open>insert_child_tree\<close> is a drift encoding of its own, no node of it above the
  level of its first node. Every valid tree is such a range.
\<close>

fun range_ok :: "'a tree_op \<Rightarrow> bool" where
  "range_ok (InsertChildTree i r) = levels_ok 0 r"
| "range_ok _ = True"

text \<open>
  The states a program reaches from the empty tree: every call returns (no assertion
  fails, no iterator is out of the vector), the range of an \<open>insert_child_tree\<close> is
  a drift encoding, and the vector stays within what \<open>size_type\<close> can count.
\<close>

inductive reachable :: "'a drift_tree \<Rightarrow> bool" where
  empty: "reachable []"
| step: "reachable t \<Longrightarrow> range_ok c \<Longrightarrow> apply_op t c = Inr t1 \<Longrightarrow> length t1 < 2 ^ 64
         \<Longrightarrow> reachable t1"

text \<open>Running one call after another, stopping at the first failure.\<close>

definition and_then :: "error + 'a \<Rightarrow> ('a \<Rightarrow> error + 'b) \<Rightarrow> error + 'b" where
  "and_then r f = (case r of Inl e \<Rightarrow> Inl e | Inr x \<Rightarrow> f x)"

text \<open>
  The tree of the tests \<open>pushBackConstruction\<close> and \<open>subtree\<close>:
  \<open>push_root(1); push_back_child(2); push_back_child(3); push_back_sibling(4);
  push_back_level(5, 1); push_back_child(6)\<close>.
\<close>

definition scenario1 :: "error + int drift_tree" where
  "scenario1 =
     and_then (and_then (and_then (and_then
       (push_back_child (push_root [] 1) 2)
       (\<lambda>t. push_back_child t 3))
       (\<lambda>t. push_back_sibling t 4))
       (\<lambda>t. push_back_level t 5 1))
       (\<lambda>t. push_back_child t 6)"

definition scenario1_tree :: "int drift_tree" where
  "scenario1_tree =
     [\<lparr>drift = 0, data = 1\<rparr>, \<lparr>drift = 0, data = 2\<rparr>, \<lparr>drift = 1, data = 3\<rparr>,
      \<lparr>drift = 2, data = 4\<rparr>, \<lparr>drift = 0, data = 5\<rparr>, \<lparr>drift = 3, data = 6\<rparr>]"

section \<open>Basic facts\<close>

lemma set_drift_length [simp]: "length (set_drift i d t) = length t"
  by (simp add: set_drift_def)

lemma set_drift_append [simp]:
  "set_drift (length xs) d (xs @ x # ys) = xs @ x\<lparr>drift := d\<rparr> # ys"
  by (simp add: set_drift_def)

lemma back_node_snoc [simp]: "back_node (xs @ [x]) = x"
  by (simp add: back_node_def)

lemma back_node_last: "t \<noteq> [] \<Longrightarrow> back_node t = last t"
  by (simp add: back_node_def last_conv_nth)

lemma set_drift_back:
  "t \<noteq> [] \<Longrightarrow> set_drift (length t - Suc 0) d t = butlast t @ [(last t)\<lparr>drift := d\<rparr>]"
proof -
  assume ne: "t \<noteq> []"
  then obtain xs x where t: "t = xs @ [x]"
    by (metis append_butlast_last_id)
  show ?thesis
    by (simp add: t set_drift_def)
qed

section \<open>Appending and removing at the back\<close>

text \<open>
  Claim C2. On a non-empty tree whose last node has drift \<open>d\<close>, and with
  \<open>back_drift < 1 + d\<close> (in the 64-bit arithmetic of the assertion),
  \<open>push_back_drifted\<close> appends exactly one node: the nodes before the last are kept,
  the drift of the former last node becomes \<open>back_drift\<close>, and the new last node has
  drift \<open>1 + d - back_drift\<close>. On the empty tree, and when \<open>1 + d \<le> back_drift\<close>,
  an assertion fails. \<open>push_back_child\<close> is \<open>push_back_drifted\<close> with back drift 0
  and \<open>push_back_sibling\<close> with back drift 1.
\<close>

theorem push_back_drifted_correct:
  "(t \<noteq> [] \<and> back_drift < 1 + drift (last t) \<longrightarrow>
      push_back_drifted t v back_drift =
        Inr (butlast t @ [(last t)\<lparr>drift := back_drift\<rparr>,
                          \<lparr>drift = 1 + drift (last t) - back_drift, data = v\<rparr>])) \<and>
   (t = [] \<or> 1 + drift (last t) \<le> back_drift \<longrightarrow>
      push_back_drifted t v back_drift = Inl AssertionFailed) \<and>
   push_back_child t v = push_back_drifted t v 0 \<and>
   push_back_sibling t v = push_back_drifted t v 1"
  by (auto simp: push_back_drifted_def push_back_child_def push_back_sibling_def
        DRIFT_CHILD_def DRIFT_SIBLING_def back_node_last set_drift_back Let_def)

theorem push_back_drifted_correct_witness:
  "push_back_drifted [\<lparr>drift = 1, data = (7::int)\<rparr>] 8 1 =
     Inr [\<lparr>drift = 1, data = 7\<rparr>, \<lparr>drift = 1, data = 8\<rparr>] \<and>
   push_back_drifted [\<lparr>drift = 1, data = (7::int)\<rparr>] 8 2 = Inl AssertionFailed \<and>
   push_back_drifted [] (8::int) 0 = Inl AssertionFailed"
  using push_back_drifted_correct [of "[\<lparr>drift = 1, data = (7::int)\<rparr>]" 1 8]
    push_back_drifted_correct [of "[\<lparr>drift = 1, data = (7::int)\<rparr>]" 2 8]
    push_back_drifted_correct [of "[]" 0 "8::int"]
  by simp

text \<open>
  Claim C10. On a non-empty tree \<open>t\<close> whose last node has drift \<open>d\<close>, and with
  \<open>back_drift < 1 + d\<close>, \<open>push_back_drifted\<close> returns a tree on which \<open>pop_back\<close>
  returns \<open>t\<close> again.
\<close>

theorem pop_back_push_back_drifted:
  assumes "t \<noteq> []" and "back_drift < 1 + drift (last t)"
  shows "\<exists>t1. push_back_drifted t v back_drift = Inr t1 \<and> pop_back t1 = Inr t"
proof -
  from assms(1) obtain xs x where t: "t = xs @ [x]"
    by (metis append_butlast_last_id)
  have push: "push_back_drifted t v back_drift =
      Inr (xs @ [x\<lparr>drift := back_drift\<rparr>, \<lparr>drift = 1 + drift x - back_drift, data = v\<rparr>])"
    using assms(2) by (simp add: t push_back_drifted_def Let_def)
  have "butlast (xs @ [x\<lparr>drift := back_drift\<rparr>, \<lparr>drift = 1 + drift x - back_drift, data = v\<rparr>])
      = xs @ [x\<lparr>drift := back_drift\<rparr>]"
    by (simp add: butlast_append)
  then have "pop_back (xs @ [x\<lparr>drift := back_drift\<rparr>,
      \<lparr>drift = 1 + drift x - back_drift, data = v\<rparr>]) = Inr t"
    using back_node_snoc [of "xs @ [x\<lparr>drift := back_drift\<rparr>]"
        "\<lparr>drift = 1 + drift x - back_drift, data = v\<rparr>"]
    by (simp add: t pop_back_def Let_def)
  with push show ?thesis by blast
qed

theorem pop_back_push_back_drifted_witness:
  "\<exists>t1. push_back_drifted [\<lparr>drift = 0, data = (1::int)\<rparr>, \<lparr>drift = 2, data = 2\<rparr>] 3 1 = Inr t1 \<and>
     pop_back t1 = Inr [\<lparr>drift = 0, data = 1\<rparr>, \<lparr>drift = 2, data = 2\<rparr>]"
  using pop_back_push_back_drifted
    [of "[\<lparr>drift = 0, data = (1::int)\<rparr>, \<lparr>drift = 2, data = 2\<rparr>]" 1 3]
  by simp

section \<open>The subtree iterator\<close>

text \<open>
  Claim C3. The iterator constructed at the node position \<open>p\<close> has its cursor at
  \<open>p + 1\<close>, with one level open when the node at \<open>p\<close> has children (drift 0) and
  none otherwise. A step on an iterator whose cursor is at the node \<open>c\<close> first adds 1
  to the open levels; when that is still less than the drift of the node at \<open>c\<close> the
  iterator becomes terminal, otherwise the drift is taken off the open levels. The cursor
  moves to \<open>c + 1\<close> (in the terminal case as well).
\<close>

theorem st_iterator_steps:
  "(p < length t \<longrightarrow>
      st_iterator_at t p =
        Inr \<lparr>it_m = Some (p + 1), level_m = (if has_children (t ! p) then 1 else 0)\<rparr>) \<and>
   (it_m a = Some c \<and> c < length t \<and> level_m a + 1 < drift (t ! c) \<longrightarrow>
      st_inc t a = Inr \<lparr>it_m = Some (c + 1), level_m = 0\<rparr> \<and>
      is_end \<lparr>it_m = Some (c + 1), level_m = 0\<rparr>) \<and>
   (it_m a = Some c \<and> c < length t \<and> \<not> level_m a + 1 < drift (t ! c) \<longrightarrow>
      st_inc t a = Inr \<lparr>it_m = Some (c + 1), level_m = level_m a + 1 - drift (t ! c)\<rparr>)"
  by (simp add: st_iterator_at_def st_inc_def has_children_def is_end_def Let_def)

theorem st_iterator_steps_witness:
  "st_iterator_at scenario1_tree 1 = Inr \<lparr>it_m = Some 2, level_m = 1\<rparr> \<and>
   st_iterator_at scenario1_tree 2 = Inr \<lparr>it_m = Some 3, level_m = 0\<rparr> \<and>
   st_inc scenario1_tree \<lparr>it_m = Some 2, level_m = 1\<rparr> = Inr \<lparr>it_m = Some 3, level_m = 1\<rparr> \<and>
   st_inc scenario1_tree \<lparr>it_m = Some 5, level_m = 1\<rparr> = Inr \<lparr>it_m = Some 6, level_m = 0\<rparr>"
  using st_iterator_steps [of 1 scenario1_tree "\<lparr>it_m = Some 2, level_m = 1\<rparr>" 2]
    st_iterator_steps [of 2 scenario1_tree "\<lparr>it_m = Some 5, level_m = 1\<rparr>" 5]
  by (simp add: scenario1_tree_def has_children_def)

text \<open>
  Claim C8. Two terminal iterators (no level open) are equal wherever their cursors are; a
  terminal and a non-terminal iterator are never equal; two non-terminal iterators are
  equal exactly when their cursors are; so two equal iterators with different cursors are
  both terminal.
\<close>

theorem st_eq_terminal:
  "(is_end a \<and> is_end b \<longrightarrow> st_eq a b) \<and>
   (is_end a \<and> \<not> is_end b \<longrightarrow> \<not> st_eq a b \<and> \<not> st_eq b a) \<and>
   (\<not> is_end a \<and> \<not> is_end b \<longrightarrow> st_eq a b = (it_m a = it_m b)) \<and>
   (st_eq a b \<and> it_m a \<noteq> it_m b \<longrightarrow> is_end a \<and> is_end b) \<and>
   is_end a = (level_m a = 0)"
  by (auto simp: st_eq_def is_end_def)

theorem st_eq_terminal_witness:
  "st_eq \<lparr>it_m = Some 3, level_m = 0\<rparr> \<lparr>it_m = None, level_m = 0\<rparr> \<and>
   \<not> st_eq \<lparr>it_m = Some 3, level_m = 0\<rparr> \<lparr>it_m = Some 3, level_m = 2\<rparr> \<and>
   st_eq \<lparr>it_m = Some 3, level_m = 1\<rparr> \<lparr>it_m = Some 3, level_m = 2\<rparr> \<and>
   \<not> st_eq \<lparr>it_m = Some 3, level_m = 1\<rparr> \<lparr>it_m = Some 4, level_m = 1\<rparr>"
proof -
  have "st_eq \<lparr>it_m = Some 3, level_m = 0\<rparr> \<lparr>it_m = None, level_m = 0\<rparr>"
    using st_eq_terminal [of "\<lparr>it_m = Some 3, level_m = 0\<rparr>" "\<lparr>it_m = None, level_m = 0\<rparr>"]
    by (simp add: is_end_def)
  moreover have "\<not> st_eq \<lparr>it_m = Some 3, level_m = 0\<rparr> \<lparr>it_m = Some 3, level_m = 2\<rparr>"
    using st_eq_terminal [of "\<lparr>it_m = Some 3, level_m = 0\<rparr>" "\<lparr>it_m = Some 3, level_m = 2\<rparr>"]
    by (simp add: is_end_def)
  moreover have "st_eq \<lparr>it_m = Some 3, level_m = 1\<rparr> \<lparr>it_m = Some 3, level_m = 2\<rparr>"
    using st_eq_terminal [of "\<lparr>it_m = Some 3, level_m = 1\<rparr>" "\<lparr>it_m = Some 3, level_m = 2\<rparr>"]
    by (simp add: is_end_def)
  moreover have "\<not> st_eq \<lparr>it_m = Some 3, level_m = 1\<rparr> \<lparr>it_m = Some 4, level_m = 1\<rparr>"
    using st_eq_terminal [of "\<lparr>it_m = Some 3, level_m = 1\<rparr>" "\<lparr>it_m = Some 4, level_m = 1\<rparr>"]
    by (simp add: is_end_def)
  ultimately show ?thesis by blast
qed

section \<open>Inserting\<close>

text \<open>
  Claim C9. At a position \<open>i\<close> of the tree, \<open>insert_child_tree\<close> with an empty
  range returns the tree as it was, with the position after \<open>i\<close>.
\<close>

theorem insert_child_tree_empty_range:
  "i < length t \<Longrightarrow> insert_child_tree t i [] = Inr (t, i + 1)"
  by (simp add: insert_child_tree_def Let_def)

theorem insert_child_tree_empty_range_witness:
  "insert_child_tree [\<lparr>drift = 0, data = (1::int)\<rparr>, \<lparr>drift = 2, data = 2\<rparr>] 0 [] =
     Inr ([\<lparr>drift = 0, data = 1\<rparr>, \<lparr>drift = 2, data = 2\<rparr>], 1)"
  using insert_child_tree_empty_range
    [of 0 "[\<lparr>drift = 0, data = (1::int)\<rparr>, \<lparr>drift = 2, data = 2\<rparr>]"]
  by simp



section \<open>The tree of the tests\<close>

lemmas st_eval = st_iterator_at_def st_walk.simps erase_subtree_loop.simps st_neq_def st_eq_def
  is_end_def st_end_def st_deref_def st_inc_def

lemmas op_eval = push_root_def push_back_child_def push_back_sibling_def
  push_back_drifted_def push_back_level_def DRIFT_CHILD_def DRIFT_SIBLING_def set_drift_def
  back_node_def and_then_def

lemma scenario1_built: "scenario1 = Inr scenario1_tree"
  by (simp add: scenario1_def scenario1_tree_def op_eval)

lemma scenario1_shape:
  "length scenario1_tree = 6 \<and>
   map has_children scenario1_tree = [True, True, False, False, True, False] \<and>
   map is_leaf scenario1_tree = [False, False, True, True, False, True] \<and>
   map data scenario1_tree = [1, 2, 3, 4, 5, 6] \<and>
   sum_list (map data scenario1_tree) = 21"
  by (simp add: scenario1_tree_def has_children_def is_leaf_def)

lemma scenario1_subtree_1:
  "subtree_nodes scenario1_tree 1 = Inr [\<lparr>drift = 1, data = 3\<rparr>, \<lparr>drift = 2, data = 4\<rparr>]"
  by (simp add: scenario1_tree_def subtree_nodes_def st_eval)

lemma scenario1_subtree_0:
  "subtree_nodes scenario1_tree 0 =
     Inr [\<lparr>drift = 0, data = 2\<rparr>, \<lparr>drift = 1, data = 3\<rparr>, \<lparr>drift = 2, data = 4\<rparr>,
          \<lparr>drift = 0, data = 5\<rparr>, \<lparr>drift = 3, data = 6\<rparr>]"
  by (simp add: scenario1_tree_def subtree_nodes_def st_eval)

lemma scenario1_subtree_leaves:
  "subtree_nodes scenario1_tree 2 = Inr [] \<and>
   subtree_nodes scenario1_tree 3 = Inr [] \<and>
   subtree_nodes scenario1_tree 5 = Inr []"
  by (simp add: scenario1_tree_def subtree_nodes_def st_eval)

text \<open>
  Claim C5. The calls \<open>push_root(1); push_back_child(2); push_back_child(3);
  push_back_sibling(4); push_back_level(5, 1); push_back_child(6)\<close> on the empty tree
  all return, and leave six nodes with the data 1 to 6 in this order, of which 1, 2 and
  5 have children and 3, 4 and 6 are leaves; the data add up to 21. On that tree the view
  anchored at the node with data 2 walks the two nodes 3 and 4, the view anchored at
  the root walks the other five nodes, and a view anchored at a leaf walks none.
\<close>

theorem scenario1_result:
  "scenario1 = Inr scenario1_tree \<and>
   length scenario1_tree = 6 \<and>
   map has_children scenario1_tree = [True, True, False, False, True, False] \<and>
   map is_leaf scenario1_tree = [False, False, True, True, False, True] \<and>
   map data scenario1_tree = [1, 2, 3, 4, 5, 6] \<and>
   sum_list (map data scenario1_tree) = 21 \<and>
   map_sum id (map data) (subtree_nodes scenario1_tree 1) = Inr [3, 4] \<and>
   map_sum id (map data) (subtree_nodes scenario1_tree 0) = Inr [2, 3, 4, 5, 6] \<and>
   subtree_nodes scenario1_tree 2 = Inr [] \<and>
   subtree_nodes scenario1_tree 3 = Inr [] \<and>
   subtree_nodes scenario1_tree 5 = Inr []"
  using scenario1_built scenario1_shape scenario1_subtree_1 scenario1_subtree_0
    scenario1_subtree_leaves
  by simp

section \<open>Levels\<close>

lemma level_shift_Nil [simp]: "level_shift [] = 0"
  by (simp add: level_shift_def)

lemma level_shift_Cons [simp]: "level_shift (n # ns) = 1 - uint (drift n) + level_shift ns"
  by (simp add: level_shift_def)

lemma level_shift_append [simp]: "level_shift (xs @ ys) = level_shift xs + level_shift ys"
  by (simp add: level_shift_def)

lemma level_shift_le_length: "level_shift ns \<le> int (length ns)"
proof (induction ns)
  case Nil
  show ?case by simp
next
  case (Cons n ns)
  have "level_shift (n # ns) = 1 - uint (drift n) + level_shift ns" by simp
  moreover have "0 \<le> uint (drift n)" by simp
  moreover have "int (length (n # ns)) = 1 + int (length ns)" by simp
  ultimately show ?case using Cons by linarith
qed

lemma level_shift_sum: "level_shift ns = int (length ns) - (\<Sum>n\<leftarrow>ns. uint (drift n))"
  by (induction ns) auto

lemma levels_ok_append [simp]:
  "levels_ok l (xs @ ys) = (levels_ok l xs \<and> levels_ok (l + level_shift xs) ys)"
  by (induction xs arbitrary: l) (auto simp: algebra_simps)

lemma levels_ok_mono: "levels_ok l ns \<Longrightarrow> l \<le> l' \<Longrightarrow> levels_ok l' ns"
  by (induction ns arbitrary: l l') auto

lemma closes_Nil [simp]: "closes l [] = (l = 0)"
  by (simp add: closes_def)

lemma closes_Cons [simp]: "closes l (n # ns) = (0 \<le> l \<and> closes (l + 1 - uint (drift n)) ns)"
  by (auto simp: closes_def algebra_simps)

lemma closes_append [simp]:
  "closes l (xs @ ys) = (levels_ok l xs \<and> closes (l + level_shift xs) ys)"
  by (auto simp: closes_def algebra_simps)

lemma closes_nonneg: "closes l ns \<Longrightarrow> 0 \<le> l"
  by (cases ns) auto

lemma valid_closes: "valid t = (length t < 2 ^ 64 \<and> closes 0 t)"
  by (simp add: valid_def closes_def level_of_def)

lemma closes_sum_drifts:
  assumes "closes 0 t"
  shows "(\<Sum>n\<leftarrow>t. uint (drift n)) = int (length t)"
  using assms level_shift_sum [of t] by (simp add: closes_def)

lemma closes_last_leaf:
  assumes "closes 0 t" and "t \<noteq> []"
  shows "is_leaf (last t)"
proof -
  from assms(2) obtain xs x where t: "t = xs @ [x]"
    by (metis append_butlast_last_id)
  from assms(1) have "0 \<le> level_shift xs" and "level_shift xs + 1 - uint (drift x) = 0"
    by (auto simp: t dest: closes_nonneg)
  then have "uint (drift x) \<noteq> 0" by linarith
  then show ?thesis by (auto simp: t is_leaf_def)
qed


subsection \<open>Drift arithmetic without wrap-around\<close>

lemma uint_add_nowrap:
  fixes a b :: "64 word"
  shows "uint a + uint b < 2 ^ 64 \<Longrightarrow> uint (a + b) = uint a + uint b"
  using uint_add_lem [of a b] by simp

lemma uint_sub_nowrap:
  fixes a b :: "64 word"
  shows "uint b \<le> uint a \<Longrightarrow> uint (a - b) = uint a - uint b"
  using uint_sub_lem [of b a] by simp

lemma uint_add1:
  fixes d :: "64 word"
  assumes "uint d + 1 < 2 ^ 64"
  shows "uint (d + 1) = uint d + 1" and "uint (1 + d) = uint d + 1"
  using assms uint_add_nowrap [of d 1] uint_add_nowrap [of 1 d] by simp_all

section \<open>Every call keeps the tree valid\<close>

lemma closes_snocD:
  assumes "closes 0 (xs @ [x])"
  shows "levels_ok 0 xs" and "0 \<le> level_shift xs" and "uint (drift x) = level_shift xs + 1"
    and "level_shift xs \<le> int (length xs)"
  using assms level_shift_le_length [of xs] by auto

lemma push_root_Nil: "push_root [] v = [\<lparr>drift = 1, data = v\<rparr>]"
  by (simp add: push_root_def set_drift_def back_node_def)

lemma push_root_snoc:
  "push_root (xs @ [x]) v = \<lparr>drift = 0, data = v\<rparr> # xs @ [x\<lparr>drift := drift x + 1\<rparr>]"
proof -
  have "back_node (\<lparr>drift = 0, data = v\<rparr> # xs @ [x]) = x"
    using back_node_snoc [of "\<lparr>drift = 0, data = v\<rparr> # xs" x] by simp
  moreover have "set_drift (length (\<lparr>drift = 0, data = v\<rparr> # xs)) (drift x + 1)
      ((\<lparr>drift = 0, data = v\<rparr> # xs) @ x # []) =
      (\<lparr>drift = 0, data = v\<rparr> # xs) @ x\<lparr>drift := drift x + 1\<rparr> # []"
    by (rule set_drift_append)
  ultimately show ?thesis by (simp add: push_root_def)
qed

lemma valid_push_root:
  assumes "valid t" and "length (push_root t v) < 2 ^ 64"
  shows "valid (push_root t v)"
proof (cases "t = []")
  case True
  then show ?thesis by (simp add: push_root_Nil valid_closes)
next
  case False
  then obtain xs x where t: "t = xs @ [x]"
    by (metis append_butlast_last_id)
  from assms(1) have c: "closes 0 (xs @ [x])" by (simp add: t valid_closes)
  note d = closes_snocD [OF c]
  from assms(2) have len: "int (length xs) + 2 < 2 ^ 64"
    by (simp add: t push_root_snoc)
  have u: "uint (drift x + 1) = uint (drift x) + 1"
    using d(3,4) len by (intro uint_add1) linarith
  have "levels_ok 1 xs" using d(1) by (rule levels_ok_mono) simp
  then have "closes 0 (\<lparr>drift = 0, data = v\<rparr> # xs @ [x\<lparr>drift := drift x + 1\<rparr>])"
    using d(2,3) u by simp
  then show ?thesis using assms(2) by (simp add: t push_root_snoc valid_closes)
qed

lemma valid_push_back_drifted:
  assumes "valid t" and "push_back_drifted t v back_drift = Inr t1" and "length t1 < 2 ^ 64"
  shows "valid t1"
proof -
  from assms(2) have ne: "t \<noteq> []"
    by (auto simp: push_back_drifted_def split: if_splits)
  then obtain xs x where t: "t = xs @ [x]"
    by (metis append_butlast_last_id)
  from assms(2) have lt: "back_drift < 1 + drift x"
    and t1: "t1 = xs @ [x\<lparr>drift := back_drift\<rparr>, \<lparr>drift = 1 + drift x - back_drift, data = v\<rparr>]"
    by (auto simp: t push_back_drifted_def Let_def split: if_splits)
  from assms(1) have c: "closes 0 (xs @ [x])" by (simp add: t valid_closes)
  note d = closes_snocD [OF c]
  from assms(3) have len: "int (length xs) + 2 < 2 ^ 64" by (simp add: t1)
  have u1: "uint (1 + drift x) = uint (drift x) + 1"
    using d(3,4) len by (intro uint_add1) linarith
  from lt have b: "uint back_drift < uint (drift x) + 1"
    by (simp add: word_less_alt u1)
  then have "uint (1 + drift x - back_drift) = uint (1 + drift x) - uint back_drift"
    by (intro uint_sub_nowrap) (simp add: u1)
  then have u2: "uint (1 + drift x - back_drift) = uint (drift x) + 1 - uint back_drift"
    by (simp add: u1)
  have "closes 0 t1"
    using d(1,2,3) b u2 by (simp add: t1)
  then show ?thesis using assms(3) by (simp add: valid_closes)
qed

lemma valid_push_back_level:
  assumes "valid t" and "push_back_level t v level = Inr t1" and "length t1 < 2 ^ 64"
  shows "valid t1"
proof -
  from assms(2) have ne: "t \<noteq> []"
    by (auto simp: push_back_level_def split: if_splits)
  then obtain xs x where t: "t = xs @ [x]"
    by (metis append_butlast_last_id)
  from assms(2) have lt: "level < drift x"
    and t1: "t1 = xs @ [x\<lparr>drift := drift x - level\<rparr>, \<lparr>drift = 1 + level, data = v\<rparr>]"
    by (auto simp: t push_back_level_def Let_def split: if_splits)
  from assms(1) have c: "closes 0 (xs @ [x])" by (simp add: t valid_closes)
  note d = closes_snocD [OF c]
  from lt have b: "uint level < uint (drift x)"
    by (simp add: word_less_alt)
  then have u1: "uint (drift x - level) = uint (drift x) - uint level"
    by (intro uint_sub_nowrap) simp
  have "uint (drift x) < 2 ^ 64" using uint_lt2p [of "drift x"] by simp
  with b have u2: "uint (1 + level) = uint level + 1"
    by (intro uint_add1) linarith
  have "closes 0 t1"
    using d(1,2,3) b u1 u2 by (simp add: t1)
  then show ?thesis using assms(3) by (simp add: valid_closes)
qed

lemma valid_pop_back:
  assumes "valid t" and "pop_back t = Inr t1"
  shows "valid t1"
proof -
  from assms(2) have "1 < length t"
    by (auto simp: pop_back_def split: if_splits)
  then have "t \<noteq> []" by auto
  then obtain ys x where ys: "t = ys @ [x]"
    by (metis append_butlast_last_id)
  with \<open>1 < length t\<close> have "ys \<noteq> []" by auto
  then obtain xs y where "ys = xs @ [y]"
    by (metis append_butlast_last_id)
  with ys have t: "t = xs @ [y, x]" by simp
  have bl: "butlast (xs @ [y, x]) = xs @ [y]" by (simp add: butlast_append)
  have bn: "back_node (xs @ [y, x]) = x"
    using back_node_snoc [of "xs @ [y]" x] by simp
  from assms(2) have t1: "t1 = xs @ [y\<lparr>drift := drift y + (drift x - 1)\<rparr>]"
    by (simp add: t pop_back_def Let_def bl bn)
  from assms(1) have len: "int (length xs) + 2 < 2 ^ 64" and lo: "levels_ok 0 xs"
    and l0: "0 \<le> level_shift xs" and ly: "0 \<le> level_shift xs + 1 - uint (drift y)"
    and dx: "uint (drift x) = level_shift xs + 1 - uint (drift y) + 1"
    by (auto simp: t valid_closes)
  have le: "level_shift xs \<le> int (length xs)" by (rule level_shift_le_length)
  have "uint (1::64 word) \<le> uint (drift x)" using dx ly by simp
  then have "uint (drift x - 1) = uint (drift x) - uint (1::64 word)"
    by (rule uint_sub_nowrap)
  then have u1: "uint (drift x - 1) = level_shift xs + 1 - uint (drift y)"
    using dx by simp
  have "uint (drift y + (drift x - 1)) = uint (drift y) + uint (drift x - 1)"
    using u1 le len by (intro uint_add_nowrap) linarith
  then have u2: "uint (drift y + (drift x - 1)) = level_shift xs + 1"
    using u1 by simp
  have "closes 0 t1" using lo l0 u2 by (simp add: t1)
  moreover have "length t1 < 2 ^ 64" using assms(1) by (simp add: t t1 valid_closes)
  ultimately show ?thesis by (simp add: valid_closes)
qed

lemma closes_midD:
  assumes "closes 0 (pre @ x # post)"
  shows "levels_ok 0 pre" and "0 \<le> level_shift pre"
    and "closes (level_shift pre + 1 - uint (drift x)) post"
    and "uint (drift x) \<le> level_shift pre + 1"
    and "level_shift pre \<le> int (length pre)"
  using assms level_shift_le_length [of pre]
    closes_nonneg [of "level_shift pre + 1 - uint (drift x)" post]
  by auto

lemma closes_ConsI:
  "0 \<le> l \<Longrightarrow> closes l' ns \<Longrightarrow> l' = l + 1 - uint (drift n) \<Longrightarrow> closes l (n # ns)"
  by simp

lemma closes_midI:
  "levels_ok 0 pre \<Longrightarrow> closes l ns \<Longrightarrow> l = level_shift pre \<Longrightarrow> closes 0 (pre @ ns)"
  by simp

lemma closes_appendI:
  "levels_ok l pre \<Longrightarrow> closes l' ns \<Longrightarrow> l' = l + level_shift pre \<Longrightarrow> closes l (pre @ ns)"
  by simp

lemma split_at:
  assumes "i < length t"
  obtains pre x post where "t = pre @ x # post" and "length pre = i" and "x = t ! i"
  using assms id_take_nth_drop [of i t] by (metis length_take min.absorb2 less_imp_le)

lemma insert_first_child_at:
  "insert_first_child (pre @ x # post) (length pre) v =
     Inr (pre @ x\<lparr>drift := 0\<rparr> # \<lparr>drift = 1 + drift x, data = v\<rparr> # post, length pre + 1)"
  by (simp add: insert_first_child_def Let_def)

lemma insert_sibling_at:
  "insert_sibling (pre @ x # post) (length pre) v =
     Inr (pre @ \<lparr>drift = 1, data = v\<rparr> # x # post, length pre)"
  by (simp add: insert_sibling_def)

lemma erase_leaf_at:
  "drift x \<noteq> 0 \<Longrightarrow>
   erase_leaf (pre @ y # x # post) (Suc (length pre)) =
     Inr (pre @ y\<lparr>drift := drift y + (drift x - 1)\<rparr> # post, Suc (length pre))"
proof -
  assume "drift x \<noteq> 0"
  moreover have "(pre @ y # x # post) ! Suc (length pre) = x"
    using nth_append_length [of "pre @ [y]" x post] by simp
  moreover have "(pre @ y # x # post) ! length pre = y" by simp
  moreover have "take (Suc (length pre)) (pre @ y\<lparr>drift := drift y + (drift x - 1)\<rparr> # x # post)
      = pre @ [y\<lparr>drift := drift y + (drift x - 1)\<rparr>]"
    by simp
  moreover have "drop (Suc (Suc (length pre))) (pre @ y\<lparr>drift := drift y + (drift x - 1)\<rparr> # x # post)
      = post"
    by simp
  ultimately show ?thesis
    by (simp add: erase_leaf_def Let_def is_leaf_def)
qed

lemma valid_insert_first_child:
  assumes "valid t" and "insert_first_child t i v = Inr (t1, k)" and "length t1 < 2 ^ 64"
  shows "valid t1"
proof -
  from assms(2) have "i < length t"
    by (auto simp: insert_first_child_def split: if_splits)
  then obtain pre x post where t: "t = pre @ x # post" and i: "length pre = i"
    by (rule split_at)
  from assms(2) have t1: "t1 = pre @ x\<lparr>drift := 0\<rparr> # \<lparr>drift = 1 + drift x, data = v\<rparr> # post"
    using insert_first_child_at [of pre x post v] by (simp add: t i)
  from assms(1) have c: "closes 0 (pre @ x # post)" by (simp add: t valid_closes)
  note d = closes_midD [OF c]
  from assms(3) have len: "int (length pre) + 2 < 2 ^ 64" by (simp add: t1)
  have u: "uint (1 + drift x) = uint (drift x) + 1"
    using d(4,5) len by (intro uint_add1) linarith
  have "closes (level_shift pre + 1) (\<lparr>drift = 1 + drift x, data = v\<rparr> # post)"
  proof (rule closes_ConsI)
    show "0 \<le> level_shift pre + 1" using d(2) by simp
    show "closes (level_shift pre + 1 - uint (drift x)) post" by (rule d(3))
    show "level_shift pre + 1 - uint (drift x) =
        level_shift pre + 1 + 1 - uint (drift \<lparr>drift = 1 + drift x, data = v\<rparr>)"
      by (simp add: u)
  qed
  with d(2) have "closes (level_shift pre)
      (x\<lparr>drift := 0\<rparr> # \<lparr>drift = 1 + drift x, data = v\<rparr> # post)"
    by (rule closes_ConsI) simp
  with d(1) have "closes 0 t1"
    unfolding t1 by (rule closes_midI) simp
  then show ?thesis using assms(3) by (simp add: valid_closes)
qed

lemma valid_insert_sibling:
  assumes "valid t" and "insert_sibling t i v = Inr (t1, k)" and "length t1 < 2 ^ 64"
  shows "valid t1"
proof -
  from assms(2) have "i < length t"
    by (auto simp: insert_sibling_def split: if_splits)
  then obtain pre x post where t: "t = pre @ x # post" and i: "length pre = i"
    by (rule split_at)
  from assms(2) have t1: "t1 = pre @ \<lparr>drift = 1, data = v\<rparr> # x # post"
    using insert_sibling_at [of pre x post v] by (simp add: t i)
  from assms(1) have c: "closes 0 (pre @ x # post)" by (simp add: t valid_closes)
  note d = closes_midD [OF c]
  have "closes 0 t1"
    using d(1,2,3) by (simp add: t1)
  then show ?thesis using assms(3) by (simp add: valid_closes)
qed

lemma valid_erase_leaf:
  assumes "valid t" and "erase_leaf t i = Inr (t1, k)"
  shows "valid t1"
proof -
  from assms(2) have il: "i < length t" and i0: "i \<noteq> 0" and leaf: "drift (t ! i) \<noteq> 0"
    by (auto simp: erase_leaf_def is_leaf_def split: if_splits)
  from il obtain pre0 x post where t0: "t = pre0 @ x # post" and i: "length pre0 = i"
    and x: "x = t ! i"
    by (rule split_at)
  from i0 i have "pre0 \<noteq> []" by auto
  then obtain pre y where pre0: "pre0 = pre @ [y]"
    by (metis append_butlast_last_id)
  have t: "t = pre @ y # x # post" by (simp add: t0 pre0)
  have i': "i = Suc (length pre)" using i by (simp add: pre0)
  from leaf have leaf_x: "drift x \<noteq> 0" by (simp add: x)
  from assms(2) have t1: "t1 = pre @ y\<lparr>drift := drift y + (drift x - 1)\<rparr> # post"
    using erase_leaf_at [OF leaf_x, of pre y post] by (simp add: t i')
  from assms(1) have c: "closes 0 (pre @ y # x # post)" by (simp add: t valid_closes)
  note d = closes_midD [OF c]
  from d(3) have lx: "0 \<le> level_shift pre + 1 - uint (drift y)"
    and c2: "closes (level_shift pre + 1 - uint (drift y) + 1 - uint (drift x)) post"
    by simp_all
  from c2 have dx: "uint (drift x) \<le> level_shift pre + 1 - uint (drift y) + 1"
    using closes_nonneg by fastforce
  from assms(1) have len: "int (length pre) + 2 \<le> 2 ^ 64" by (simp add: t valid_closes)
  from leaf_x have "uint (drift x) \<noteq> 0" by (simp add: uint_0_iff)
  then have "1 \<le> uint (drift x)" using uint_ge_0 [of "drift x"] by linarith
  then have "uint (1::64 word) \<le> uint (drift x)" by simp
  then have "uint (drift x - 1) = uint (drift x) - uint (1::64 word)"
    by (rule uint_sub_nowrap)
  then have u1: "uint (drift x - 1) = uint (drift x) - 1" by simp
  have "uint (drift y + (drift x - 1)) = uint (drift y) + uint (drift x - 1)"
    using u1 dx d(5) len by (intro uint_add_nowrap) linarith
  then have u2: "uint (drift y + (drift x - 1)) = uint (drift y) + uint (drift x) - 1"
    using u1 by simp
  have "closes (level_shift pre) (y\<lparr>drift := drift y + (drift x - 1)\<rparr> # post)"
    using d(2) c2 by (rule closes_ConsI) (simp add: u2)
  with d(1) have "closes 0 t1"
    unfolding t1 by (rule closes_midI) simp
  moreover have "length t1 < 2 ^ 64" using assms(1) by (simp add: t t1 valid_closes)
  ultimately show ?thesis by (simp add: valid_closes)
qed


lemma uint_word_of_int_64:
  "0 \<le> k \<Longrightarrow> k < 2 ^ 64 \<Longrightarrow> uint (word_of_int k :: 64 word) = k"
  by (simp add: uint_word_of_int)

lemma insert_child_tree_loop_run:
  "insert_child_tree_loop (a @ rs @ b) (Suc (length rs)) (length a) d =
     (length a + length rs, d + word_of_int (level_shift rs))"
proof (induction rs arbitrary: a d)
  case Nil
  show ?case by (simp add: insert_child_tree_loop.simps)
next
  case (Cons n rs)
  have "insert_child_tree_loop (a @ (n # rs) @ b) (Suc (length (n # rs))) (length a) d =
      insert_child_tree_loop ((a @ [n]) @ rs @ b) (Suc (length rs)) (length (a @ [n]))
        (d + (1 - drift n))"
    by (subst insert_child_tree_loop.simps) simp
  also have "\<dots> = (length (a @ [n]) + length rs, d + (1 - drift n) + word_of_int (level_shift rs))"
    by (rule Cons.IH)
  finally show ?case by simp
qed

lemma insert_child_tree_at:
  "insert_child_tree (pre @ x # post) (length pre) (rs @ [rl]) =
     Inr (pre @ x\<lparr>drift := 0\<rparr> # rs @
            rl\<lparr>drift := 1 + drift x + word_of_int (level_shift rs)\<rparr> # post,
          length pre + 1 + length rs)"
proof -
  let ?t2 = "pre @ x\<lparr>drift := 0\<rparr> # rs @ rl # post"
  have loop: "insert_child_tree_loop ?t2 (Suc (length rs)) (Suc (length pre)) (1 + drift x) =
      (Suc (length pre) + length rs, 1 + drift x + word_of_int (level_shift rs))"
    using insert_child_tree_loop_run [of "pre @ [x\<lparr>drift := 0\<rparr>]" rs "rl # post" "1 + drift x"]
    by simp
  have upd: "set_drift (Suc (length pre + length rs)) d ?t2 =
      pre @ x\<lparr>drift := 0\<rparr> # rs @ rl\<lparr>drift := d\<rparr> # post" for d
    using set_drift_append [of "pre @ x\<lparr>drift := 0\<rparr> # rs" d rl post] by simp
  show ?thesis
    by (simp add: insert_child_tree_def Let_def loop upd)
qed


lemma valid_insert_child_tree:
  assumes "valid t" and "levels_ok 0 r" and "insert_child_tree t i r = Inr (t1, k)"
    and "length t1 < 2 ^ 64"
  shows "valid t1"
proof (cases "r = []")
  case True
  with assms(3) have "t1 = t"
    by (auto simp: insert_child_tree_def Let_def split: if_splits)
  with assms(1) show ?thesis by simp
next
  case False
  then obtain rs rl where r: "r = rs @ [rl]"
    by (metis append_butlast_last_id)
  from assms(3) have "i < length t"
    by (auto simp: insert_child_tree_def split: if_splits)
  then obtain pre x post where t: "t = pre @ x # post" and i: "length pre = i"
    by (rule split_at)
  let ?D = "1 + drift x + word_of_int (level_shift rs) :: 64 word"
  from assms(3) have t1: "t1 = pre @ x\<lparr>drift := 0\<rparr> # rs @ rl\<lparr>drift := ?D\<rparr> # post"
    using insert_child_tree_at [of pre x post rs rl] by (simp add: t i r)
  from assms(1) have c: "closes 0 (pre @ x # post)" by (simp add: t valid_closes)
  note d = closes_midD [OF c]
  from assms(2) have rs_ok: "levels_ok 0 rs" and rs0: "0 \<le> level_shift rs"
    by (simp_all add: r)
  have rs_le: "level_shift rs \<le> int (length rs)" by (rule level_shift_le_length)
  from assms(4) have len: "int (length pre) + int (length rs) + 2 < 2 ^ 64" by (simp add: t1)
  have "?D = word_of_int (1 + uint (drift x) + level_shift rs)" by simp
  moreover have "0 \<le> 1 + uint (drift x) + level_shift rs"
    using rs0 uint_ge_0 [of "drift x"] by linarith
  moreover have "1 + uint (drift x) + level_shift rs < 2 ^ 64"
    using d(4,5) rs_le len by linarith
  ultimately have u: "uint ?D = 1 + uint (drift x) + level_shift rs"
    by (simp only: uint_word_of_int_64)
  have "closes (level_shift pre + 1 + level_shift rs) (rl\<lparr>drift := ?D\<rparr> # post)"
  proof (rule closes_ConsI)
    show "0 \<le> level_shift pre + 1 + level_shift rs" using d(2) rs0 by simp
    show "closes (level_shift pre + 1 - uint (drift x)) post" by (rule d(3))
    show "level_shift pre + 1 - uint (drift x) =
        level_shift pre + 1 + level_shift rs + 1 - uint (drift (rl\<lparr>drift := ?D\<rparr>))"
      using u by simp
  qed
  moreover have "levels_ok (level_shift pre + 1) rs"
    using rs_ok by (rule levels_ok_mono) (use d(2) in simp)
  ultimately have "closes (level_shift pre + 1) (rs @ rl\<lparr>drift := ?D\<rparr> # post)"
    by (intro closes_appendI [where l' = "level_shift pre + 1 + level_shift rs"]) simp_all
  with d(2) have "closes (level_shift pre) (x\<lparr>drift := 0\<rparr> # rs @ rl\<lparr>drift := ?D\<rparr> # post)"
    by (rule closes_ConsI) simp
  with d(1) have "closes 0 t1"
    unfolding t1 by (rule closes_midI) simp
  then show ?thesis using assms(4) by (simp add: valid_closes)
qed

section \<open>Walking a subtree\<close>

lemma drop_eq_ConsD:
  assumes "drop c t = n # ns"
  shows "c < length t" and "t ! c = n" and "drop (Suc c) t = ns"
proof -
  show c: "c < length t" using assms by (cases "c < length t") auto
  from Cons_nth_drop_Suc [OF c] assms show "t ! c = n" and "drop (Suc c) t = ns" by auto
qed

lemma span_len_nonpos [simp]: "l \<le> 0 \<Longrightarrow> span_len l ns = 0"
  by (cases ns) auto

lemma span_len_le_length: "span_len l ns \<le> length ns"
  by (induction ns arbitrary: l) auto

text \<open>One round of the loops, on an iterator that is not at its end.\<close>

lemma st_neq_end [simp]: "st_neq \<lparr>it_m = c, level_m = lm\<rparr> st_end = (lm \<noteq> 0)"
  by (auto simp: st_neq_def st_eq_def is_end_def st_end_def)

lemma st_step:
  fixes lm :: "64 word"
  assumes "c < length t" and "uint lm + 1 < 2 ^ 64"
  shows "\<exists>lm1. st_inc t \<lparr>it_m = Some c, level_m = lm\<rparr> = Inr \<lparr>it_m = Some (Suc c), level_m = lm1\<rparr> \<and>
           (uint lm + 1 - uint (drift (t ! c)) \<le> 0 \<longrightarrow> lm1 = 0) \<and>
           (0 < uint lm + 1 - uint (drift (t ! c)) \<longrightarrow>
              uint lm1 = uint lm + 1 - uint (drift (t ! c)))"
proof -
  have u: "uint (lm + 1) = uint lm + 1" using assms(2) by (rule uint_add1)
  show ?thesis
  proof (cases "lm + 1 < drift (t ! c)")
    case True
    then have "uint lm + 1 < uint (drift (t ! c))" by (simp add: word_less_alt u)
    with True assms(1) show ?thesis by (simp add: st_inc_def Let_def)
  next
    case False
    then have le: "uint (drift (t ! c)) \<le> uint (lm + 1)" by (simp add: word_less_alt)
    then have s: "uint (lm + 1 - drift (t ! c)) = uint lm + 1 - uint (drift (t ! c))"
      using uint_sub_nowrap [of "drift (t ! c)" "lm + 1"] by (simp add: u)
    have "uint lm + 1 - uint (drift (t ! c)) \<le> 0 \<Longrightarrow> lm + 1 - drift (t ! c) = 0"
      using s le u by (simp add: word_uint_eq_iff)
    with False assms(1) s show ?thesis by (simp add: st_inc_def Let_def)
  qed
qed

lemma erase_subtree_loop_run:
  fixes lm :: "64 word"
  assumes "drop c t = ns" and "lm \<noteq> 0" and "uint lm + int (length ns) < 2 ^ 64"
    and "uint lm + level_shift ns \<le> 0"
  shows "erase_subtree_loop t \<lparr>it_m = Some c, level_m = lm\<rparr> lv =
     Inr (\<lparr>it_m = Some (c + span_len (uint lm) ns), level_m = 0\<rparr>,
          word_of_int (uint lm + level_shift (take (span_len (uint lm) ns - 1) ns)))"
  using assms
proof (induction ns arbitrary: c lm lv)
  case Nil
  then have "uint lm = 0" using uint_ge_0 [of lm] by simp
  with Nil.prems(2) show ?case by (simp add: uint_0_iff)
next
  case (Cons n ns)
  note dr = drop_eq_ConsD [OF Cons.prems(1)]
  have pos: "0 < uint lm"
    using Cons.prems(2) uint_ge_0 [of lm] by (simp add: order_less_le uint_0_iff)
  have nowrap: "uint lm + 1 < 2 ^ 64" using Cons.prems(3) by simp
  from st_step [OF dr(1) nowrap] obtain lm1 where
    inc: "st_inc t \<lparr>it_m = Some c, level_m = lm\<rparr> = Inr \<lparr>it_m = Some (Suc c), level_m = lm1\<rparr>"
    and z: "uint lm + 1 - uint (drift n) \<le> 0 \<Longrightarrow> lm1 = 0"
    and nz: "0 < uint lm + 1 - uint (drift n) \<Longrightarrow> uint lm1 = uint lm + 1 - uint (drift n)"
    by (auto simp: dr(2))
  have unfold: "erase_subtree_loop t \<lparr>it_m = Some c, level_m = lm\<rparr> lv =
      erase_subtree_loop t \<lparr>it_m = Some (Suc c), level_m = lm1\<rparr> lm"
    using Cons.prems(2) by (subst erase_subtree_loop.simps) (simp add: inc)
  show ?case
  proof (cases "0 < uint lm + 1 - uint (drift n)")
    case False
    then have "lm1 = 0" using z by simp
    then have "erase_subtree_loop t \<lparr>it_m = Some (Suc c), level_m = lm1\<rparr> lm =
        Inr (\<lparr>it_m = Some (Suc c), level_m = 0\<rparr>, lm)"
      by (subst erase_subtree_loop.simps) simp
    with False pos show ?thesis by (simp add: unfold)
  next
    case True
    let ?l1 = "uint lm + 1 - uint (drift n)"
    have u1: "uint lm1 = ?l1" using nz True by simp
    have ne1: "lm1 \<noteq> 0" using u1 True by (auto simp: uint_0_iff [symmetric])
    have "int (length (n # ns)) = int (length ns) + 1" by simp
    then have b1: "uint lm1 + int (length ns) < 2 ^ 64"
      using u1 Cons.prems(3) uint_ge_0 [of "drift n"] by linarith
    have b2: "uint lm1 + level_shift ns \<le> 0"
      using u1 Cons.prems(4) by simp
    have ns_ne: "ns \<noteq> []" using b2 u1 True by auto
    then have k1: "0 < span_len ?l1 ns" using True by (cases ns) auto
    have "erase_subtree_loop t \<lparr>it_m = Some (Suc c), level_m = lm1\<rparr> lm =
        Inr (\<lparr>it_m = Some (Suc c + span_len (uint lm1) ns), level_m = 0\<rparr>,
             word_of_int (uint lm1 + level_shift (take (span_len (uint lm1) ns - 1) ns)))"
      using dr(3) ne1 b1 b2 by (rule Cons.IH)
    moreover have "take (span_len ?l1 ns) (n # ns) = n # take (span_len ?l1 ns - 1) ns"
      using k1 by (cases "span_len ?l1 ns") auto
    ultimately show ?thesis using pos by (simp add: unfold u1)
  qed
qed


lemma st_walk_run:
  fixes lm :: "64 word"
  assumes "drop c t = ns" and "lm \<noteq> 0" and "uint lm + int (length ns) < 2 ^ 64"
    and "uint lm + level_shift ns \<le> 0"
  shows "st_walk t \<lparr>it_m = Some c, level_m = lm\<rparr> = Inr (take (span_len (uint lm) ns) ns)"
  using assms
proof (induction ns arbitrary: c lm)
  case Nil
  then have "uint lm = 0" using uint_ge_0 [of lm] by simp
  with Nil.prems(2) show ?case by (simp add: uint_0_iff)
next
  case (Cons n ns)
  note dr = drop_eq_ConsD [OF Cons.prems(1)]
  have pos: "0 < uint lm"
    using Cons.prems(2) uint_ge_0 [of lm] by (simp add: order_less_le uint_0_iff)
  have nowrap: "uint lm + 1 < 2 ^ 64" using Cons.prems(3) by simp
  from st_step [OF dr(1) nowrap] obtain lm1 where
    inc: "st_inc t \<lparr>it_m = Some c, level_m = lm\<rparr> = Inr \<lparr>it_m = Some (Suc c), level_m = lm1\<rparr>"
    and z: "uint lm + 1 - uint (drift n) \<le> 0 \<Longrightarrow> lm1 = 0"
    and nz: "0 < uint lm + 1 - uint (drift n) \<Longrightarrow> uint lm1 = uint lm + 1 - uint (drift n)"
    by (auto simp: dr(2))
  have deref: "st_deref t \<lparr>it_m = Some c, level_m = lm\<rparr> = Inr n"
    using dr(1,2) by (simp add: st_deref_def)
  have unfold: "st_walk t \<lparr>it_m = Some c, level_m = lm\<rparr> =
      (case st_walk t \<lparr>it_m = Some (Suc c), level_m = lm1\<rparr> of
         Inl e \<Rightarrow> Inl e | Inr ms \<Rightarrow> Inr (n # ms))"
    using Cons.prems(2) by (subst st_walk.simps) (simp add: inc deref)
  show ?case
  proof (cases "0 < uint lm + 1 - uint (drift n)")
    case False
    then have "lm1 = 0" using z by simp
    then have "st_walk t \<lparr>it_m = Some (Suc c), level_m = lm1\<rparr> = Inr []"
      by (subst st_walk.simps) simp
    with False pos show ?thesis by (simp add: unfold)
  next
    case True
    let ?l1 = "uint lm + 1 - uint (drift n)"
    have u1: "uint lm1 = ?l1" using nz True by simp
    have ne1: "lm1 \<noteq> 0" using u1 True by (auto simp: uint_0_iff [symmetric])
    have "int (length (n # ns)) = int (length ns) + 1" by simp
    then have b1: "uint lm1 + int (length ns) < 2 ^ 64"
      using u1 Cons.prems(3) uint_ge_0 [of "drift n"] by linarith
    have b2: "uint lm1 + level_shift ns \<le> 0"
      using u1 Cons.prems(4) by simp
    have "st_walk t \<lparr>it_m = Some (Suc c), level_m = lm1\<rparr> =
        Inr (take (span_len (uint lm1) ns) ns)"
      using dr(3) ne1 b1 b2 by (rule Cons.IH)
    then show ?thesis using pos by (simp add: unfold u1)
  qed
qed

subsection \<open>The span and the descendants\<close>

lemma span_len_iff:
  "m < span_len l ns \<longleftrightarrow> m < length ns \<and> (\<forall>i\<le>m. 0 < l + level_shift (take i ns))"
proof (induction ns arbitrary: l m)
  case Nil
  show ?case by simp
next
  case (Cons n ns)
  show ?case
  proof (cases m)
    case 0
    then show ?thesis by simp
  next
    case (Suc m')
    have "(\<forall>i\<le>Suc m'. 0 < l + level_shift (take i (n # ns))) \<longleftrightarrow>
        0 < l \<and> (\<forall>i\<le>m'. 0 < l + 1 - uint (drift n) + level_shift (take i ns))"
    proof
      assume a: "\<forall>i\<le>Suc m'. 0 < l + level_shift (take i (n # ns))"
      from a have "0 < l + level_shift (take 0 (n # ns))" by blast
      moreover have "0 < l + 1 - uint (drift n) + level_shift (take i ns)" if "i \<le> m'" for i
        using a [rule_format, of "Suc i"] that by (simp add: algebra_simps)
      ultimately show "0 < l \<and> (\<forall>i\<le>m'. 0 < l + 1 - uint (drift n) + level_shift (take i ns))"
        by simp
    next
      assume b: "0 < l \<and> (\<forall>i\<le>m'. 0 < l + 1 - uint (drift n) + level_shift (take i ns))"
      show "\<forall>i\<le>Suc m'. 0 < l + level_shift (take i (n # ns))"
      proof (intro allI impI)
        fix i assume "i \<le> Suc m'"
        then show "0 < l + level_shift (take i (n # ns))"
          using b by (cases i) (auto simp: algebra_simps)
      qed
    qed
    then show ?thesis using Cons.IH [of m' "l + 1 - uint (drift n)"] Suc by auto
  qed
qed


lemma level_of_mid:
  "level_of (pre @ x # post) (length pre) = level_shift pre"
  "level_of (pre @ x # post) (length pre + 1 + i) =
     level_shift pre + 1 - uint (drift x) + level_shift (take i post)"
  by (simp_all add: level_of_def)

lemma is_descendant_iff:
  "is_descendant (pre @ x # post) (length pre) j \<longleftrightarrow>
     length pre < j \<and> j \<le> length pre + span_len (1 - uint (drift x)) post"
proof (cases "length pre < j")
  case False
  then show ?thesis by (simp add: is_descendant_def)
next
  case True
  define m where "m = j - Suc (length pre)"
  have j: "j = length pre + 1 + m" using True by (simp add: m_def)
  let ?t = "pre @ x # post"
  let ?Q = "\<lambda>k. level_of ?t (length pre) < level_of ?t k"
  have "(\<forall>k\<in>set [Suc (length pre)..<Suc j]. ?Q k) \<longleftrightarrow> (\<forall>i\<le>m. ?Q (length pre + 1 + i))"
  proof
    assume a: "\<forall>k\<in>set [Suc (length pre)..<Suc j]. ?Q k"
    show "\<forall>i\<le>m. ?Q (length pre + 1 + i)"
    proof (intro allI impI)
      fix i assume "i \<le> m"
      then have "length pre + 1 + i \<in> set [Suc (length pre)..<Suc j]"
        by (simp add: j del: upt_Suc)
      with a show "?Q (length pre + 1 + i)" by blast
    qed
  next
    assume b: "\<forall>i\<le>m. ?Q (length pre + 1 + i)"
    show "\<forall>k\<in>set [Suc (length pre)..<Suc j]. ?Q k"
    proof
      fix k assume "k \<in> set [Suc (length pre)..<Suc j]"
      then have "k - Suc (length pre) \<le> m" and "k = length pre + 1 + (k - Suc (length pre))"
        by (auto simp: j simp del: upt_Suc)
      with b show "?Q k" by metis
    qed
  qed
  also have "\<dots> \<longleftrightarrow> (\<forall>i\<le>m. 0 < 1 - uint (drift x) + level_shift (take i post))"
    by (simp only: level_of_mid) (simp add: algebra_simps)
  finally have q: "list_all ?Q [Suc (length pre)..<Suc j] \<longleftrightarrow>
      (\<forall>i\<le>m. 0 < 1 - uint (drift x) + level_shift (take i post))"
    by (simp add: list_all_iff)
  have "is_descendant ?t (length pre) j \<longleftrightarrow>
      m < length post \<and> (\<forall>i\<le>m. 0 < 1 - uint (drift x) + level_shift (take i post))"
    unfolding is_descendant_def q using True by (auto simp: j)
  also have "\<dots> \<longleftrightarrow> m < span_len (1 - uint (drift x)) post"
    by (simp add: span_len_iff)
  also have "\<dots> \<longleftrightarrow> length pre < j \<and> j \<le> length pre + span_len (1 - uint (drift x)) post"
    using True by (auto simp: j)
  finally show ?thesis .
qed

lemma subtree_size_span:
  "subtree_size (pre @ x # post) (length pre) = span_len (1 - uint (drift x)) post"
proof -
  let ?t = "pre @ x # post"
  let ?K = "span_len (1 - uint (drift x)) post"
  have K: "?K \<le> length post" by (rule span_len_le_length)
  have "subtree_size ?t (length pre) =
      card {i. i < length [0..<length ?t] \<and> is_descendant ?t (length pre) ([0..<length ?t] ! i)}"
    unfolding subtree_size_def by (rule length_filter_conv_card)
  also have "{i. i < length [0..<length ?t] \<and> is_descendant ?t (length pre) ([0..<length ?t] ! i)}
      = {length pre<..length pre + ?K}"
    using K by (auto simp: is_descendant_iff simp del: upt_Suc)
  finally show ?thesis by simp
qed


lemma span_end:
  assumes "0 < l" and "l + level_shift ns \<le> 0"
  shows "0 < span_len l ns" and "span_len l ns \<le> length ns"
    and "0 < l + level_shift (take (span_len l ns - 1) ns)"
    and "l + level_shift (take (span_len l ns) ns) \<le> 0"
proof -
  let ?K = "span_len l ns"
  from assms have "ns \<noteq> []" by auto
  with assms(1) show pos: "0 < ?K" by (cases ns) auto
  show le: "?K \<le> length ns" by (rule span_len_le_length)
  from pos have "?K - 1 < ?K" by simp
  then have before: "\<forall>i\<le>?K - 1. 0 < l + level_shift (take i ns)"
    using span_len_iff [of "?K - 1" l ns] by blast
  then show "0 < l + level_shift (take (?K - 1) ns)" by blast
  show "l + level_shift (take ?K ns) \<le> 0"
  proof (cases "?K = length ns")
    case True
    with assms(2) show ?thesis by simp
  next
    case False
    with le have "?K < length ns" by simp
    moreover have "\<not> ?K < ?K" by simp
    ultimately have "\<not> (\<forall>i\<le>?K. 0 < l + level_shift (take i ns))"
      using span_len_iff [of ?K l ns] by blast
    then obtain i where i: "i \<le> ?K" "\<not> 0 < l + level_shift (take i ns)" by blast
    with before have "i = ?K"
      by (metis One_nat_def Suc_pred le_SucE pos)
    with i(2) show ?thesis by simp
  qed
qed

subsection \<open>\<open>erase_subtree\<close> on a valid tree\<close>

lemma erase_subtree_leaf:
  assumes "drift x \<noteq> 0"
  shows "erase_subtree (pre @ x # post) (length pre) = Inr (pre @ x # post, length pre + 1)"
proof -
  let ?t = "pre @ x # post"
  have it: "st_iterator_at ?t (length pre) = Inr \<lparr>it_m = Some (Suc (length pre)), level_m = 0\<rparr>"
    using assms by (simp add: st_iterator_at_def)
  have loop: "erase_subtree_loop ?t \<lparr>it_m = Some (Suc (length pre)), level_m = 0\<rparr> 0 =
      Inr (\<lparr>it_m = Some (Suc (length pre)), level_m = 0\<rparr>, 0)"
    by (subst erase_subtree_loop.simps) simp
  have "set_drift (length pre) (drift x) ?t = ?t"
    by simp
  then show ?thesis
    by (simp add: erase_subtree_def it loop)
qed

lemma erase_subtree_inner:
  assumes "valid (pre @ x # post)" and "drift x = 0"
  shows "erase_subtree (pre @ x # post) (length pre) =
     Inr (pre @ x\<lparr>drift := drift (post ! (span_len 1 post - 1)) -
                     word_of_int (1 + level_shift (take (span_len 1 post - 1) post))\<rparr> #
            drop (span_len 1 post) post,
          length pre + 1)"
proof -
  let ?t = "pre @ x # post"
  let ?K = "span_len 1 post"
  let ?lv = "word_of_int (1 + level_shift (take (?K - 1) post)) :: 64 word"
  from assms(1) have c: "closes 0 ?t" and len: "length ?t < 2 ^ 64"
    by (simp_all add: valid_closes)
  note d = closes_midD [OF c]
  from d(3) assms(2) have "level_shift pre + 1 + level_shift post = 0"
    by (simp add: closes_def)
  with d(2) have b2: "uint (1::64 word) + level_shift post \<le> 0" by simp
  have b1: "uint (1::64 word) + int (length post) < 2 ^ 64" using len by simp
  have dr: "drop (Suc (length pre)) ?t = post" by simp
  have it: "st_iterator_at ?t (length pre) = Inr \<lparr>it_m = Some (Suc (length pre)), level_m = 1\<rparr>"
    using assms(2) by (simp add: st_iterator_at_def)
  have loop: "erase_subtree_loop ?t \<lparr>it_m = Some (Suc (length pre)), level_m = 1\<rparr> 1 =
      Inr (\<lparr>it_m = Some (Suc (length pre) + ?K), level_m = 0\<rparr>, ?lv)"
    using erase_subtree_loop_run [OF dr _ b1 b2, of 1] by simp
  from b2 have e: "0 < ?K" "?K \<le> length post"
    using span_end [of 1 post] by simp_all
  have nth: "?t ! (length pre + ?K) = post ! (?K - 1)"
    using e(1) by (simp add: nth_append nth_Cons')
  have tk: "take (Suc (length pre)) (pre @ x\<lparr>drift := v\<rparr> # post) = pre @ [x\<lparr>drift := v\<rparr>]" for v
    by simp
  have dp: "drop (Suc (length pre + ?K)) (pre @ x\<lparr>drift := v\<rparr> # post) = drop ?K post" for v
    by simp
  have loop': "erase_subtree_loop ?t \<lparr>it_m = Some (Suc (length pre)), level_m = 1\<rparr> 1 =
      Inr (\<lparr>it_m = Some (Suc (length pre + ?K)), level_m = 0\<rparr>, ?lv)"
    using loop by simp
  show ?thesis
    using e by (simp add: erase_subtree_def it loop' nth tk dp del: of_int_add)
qed


text \<open>The last node that \<open>erase_subtree\<close> removes, and the drift it leaves in the anchor.\<close>

lemma span_last:
  assumes "1 + level_shift post \<le> 0" and "int (length post) < 2 ^ 64"
  obtains q lq where "post ! (span_len 1 post - 1) = q"
    and "1 + level_shift (take (span_len 1 post - 1) post) = lq"
    and "level_shift (take (span_len 1 post) post) = lq - uint (drift q)"
    and "0 < lq" and "lq < uint (drift q)"
    and "uint (drift q - word_of_int lq) = uint (drift q) - lq"
proof -
  define K where "K = span_len 1 post"
  define q where "q = post ! (K - 1)"
  define lq where "lq = 1 + level_shift (take (K - 1) post)"
  have e: "0 < K" "K \<le> length post" "0 < lq" "1 + level_shift (take K post) \<le> 0"
    using span_end [of 1 post, OF _ assms(1)] by (simp_all add: K_def lq_def)
  from e(1,2) have "K - 1 < length post" and "Suc (K - 1) = K" by simp_all
  then have tk: "take K post = take (K - 1) post @ [q]"
    using take_Suc_conv_app_nth [of "K - 1" post] by (simp add: q_def)
  have "level_shift (take K post) = level_shift (take (K - 1) post) + (1 - uint (drift q))"
    by (subst tk) simp
  then have sh: "level_shift (take K post) = lq - uint (drift q)"
    by (simp add: lq_def)
  have lt: "lq < uint (drift q)" using e(4) sh by simp
  have "level_shift (take (K - 1) post) \<le> int (length (take (K - 1) post))"
    by (rule level_shift_le_length)
  then have "lq \<le> int (length post)" using e(1,2) by (simp add: lq_def)
  with assms(2) e(3) have u: "uint (word_of_int lq :: 64 word) = lq"
    by (intro uint_word_of_int_64) simp_all
  with lt have "uint (word_of_int lq :: 64 word) \<le> uint (drift q)"
    by simp
  then have "uint (drift q - word_of_int lq) = uint (drift q) - uint (word_of_int lq :: 64 word)"
    by (rule uint_sub_nowrap)
  with u have "uint (drift q - word_of_int lq) = uint (drift q) - lq" by simp
  with sh e(3) lt show ?thesis
    using that [of q lq] by (simp add: q_def lq_def K_def)
qed

lemma valid_erase_subtree:
  assumes "valid t" and "erase_subtree t p = Inr (t1, k)"
  shows "valid t1"
proof -
  from assms(2) have "p < length t"
    by (auto simp: erase_subtree_def st_iterator_at_def split: if_splits)
  then obtain pre x post where t: "t = pre @ x # post" and p: "length pre = p"
    by (rule split_at)
  show ?thesis
  proof (cases "drift x = 0")
    case False
    with assms(2) have "t1 = t"
      using erase_subtree_leaf [of x pre post] by (simp add: t p)
    with assms(1) show ?thesis by simp
  next
    case True
    from assms(1) have v: "valid (pre @ x # post)" by (simp add: t)
    then have c: "closes 0 (pre @ x # post)" and len: "length (pre @ x # post) < 2 ^ 64"
      by (simp_all add: valid_closes)
    note d = closes_midD [OF c]
    from d(3) True have cp: "closes (level_shift pre + 1) post" by simp
    then have "level_shift pre + 1 + level_shift post = 0" by (simp add: closes_def)
    with d(2) have b2: "1 + level_shift post \<le> 0" by simp
    have b1: "int (length post) < 2 ^ 64" using len by simp
    from span_last [OF b2 b1] obtain q lq where
      q: "post ! (span_len 1 post - 1) = q"
      and lq: "1 + level_shift (take (span_len 1 post - 1) post) = lq"
      and sh: "level_shift (take (span_len 1 post) post) = lq - uint (drift q)"
      and u: "uint (drift q - word_of_int lq) = uint (drift q) - lq"
      by metis
    have "erase_subtree (pre @ x # post) (length pre) =
        Inr (pre @ x\<lparr>drift := drift q - word_of_int lq\<rparr> # drop (span_len 1 post) post,
             length pre + 1)"
      using erase_subtree_inner [OF v True] unfolding q lq .
    with assms(2) have t1:
      "t1 = pre @ x\<lparr>drift := drift q - word_of_int lq\<rparr> # drop (span_len 1 post) post"
      by (simp add: t p)
    have "closes (level_shift pre + 1) (take (span_len 1 post) post @ drop (span_len 1 post) post)"
      using cp by simp
    then have c2: "closes (level_shift pre + 1 + level_shift (take (span_len 1 post) post))
        (drop (span_len 1 post) post)"
      by (simp only: closes_append)
    have "closes (level_shift pre)
        (x\<lparr>drift := drift q - word_of_int lq\<rparr> # drop (span_len 1 post) post)"
      using d(2) c2 by (rule closes_ConsI) (simp add: sh u)
    with d(1) have "closes 0 t1"
      unfolding t1 by (rule closes_midI) simp
    moreover have "length t1 < 2 ^ 64" using len by (simp add: t1)
    ultimately show ?thesis by (simp add: valid_closes)
  qed
qed

section \<open>The invariant of the container\<close>

lemma tree_of_InrD: "tree_of r = Inr t1 \<Longrightarrow> \<exists>k. r = Inr (t1, k)"
  by (auto simp: tree_of_def split: sum.splits)

lemma valid_apply_op:
  assumes "valid t" and "range_ok c" and "apply_op t c = Inr t1" and "length t1 < 2 ^ 64"
  shows "valid t1"
proof (cases c)
  case (PushRoot v)
  with assms show ?thesis using valid_push_root [of t v] by auto
next
  case (PushBackDrifted v b)
  with assms show ?thesis using valid_push_back_drifted [of t v b t1] by simp
next
  case (PushBackChild v)
  with assms show ?thesis
    using valid_push_back_drifted [of t v DRIFT_CHILD t1] by (simp add: push_back_child_def)
next
  case (PushBackSibling v)
  with assms show ?thesis
    using valid_push_back_drifted [of t v DRIFT_SIBLING t1] by (simp add: push_back_sibling_def)
next
  case (PushBackLevel v l)
  with assms show ?thesis using valid_push_back_level [of t v l t1] by simp
next
  case PopBack
  with assms show ?thesis using valid_pop_back [of t t1] by simp
next
  case (InsertFirstChild i v)
  with assms obtain k where "insert_first_child t i v = Inr (t1, k)"
    using tree_of_InrD by fastforce
  with assms(1,4) show ?thesis using valid_insert_first_child [of t i v t1 k] by simp
next
  case (InsertChildTree i r)
  with assms obtain k where "insert_child_tree t i r = Inr (t1, k)" and "levels_ok 0 r"
    using tree_of_InrD by fastforce
  with assms(1,4) show ?thesis using valid_insert_child_tree [of t r i t1 k] by simp
next
  case (InsertSibling i v)
  with assms obtain k where "insert_sibling t i v = Inr (t1, k)"
    using tree_of_InrD by fastforce
  with assms(1,4) show ?thesis using valid_insert_sibling [of t i v t1 k] by simp
next
  case (EraseLeaf i)
  with assms obtain k where "erase_leaf t i = Inr (t1, k)"
    using tree_of_InrD by fastforce
  with assms(1) show ?thesis using valid_erase_leaf [of t i t1 k] by simp
next
  case (EraseSubtree p)
  with assms obtain k where "erase_subtree t p = Inr (t1, k)"
    using tree_of_InrD by fastforce
  with assms(1) show ?thesis using valid_erase_subtree [of t p t1 k] by simp
qed

lemma reachable_valid: "reachable t \<Longrightarrow> valid t"
proof (induction rule: reachable.induct)
  case empty
  show ?case by (simp add: valid_closes)
next
  case (step t c t1)
  then show ?case using valid_apply_op [of t c t1] by simp
qed

lemma sum_unat_uint: "int (\<Sum>n\<leftarrow>ns. unat (drift n)) = (\<Sum>n\<leftarrow>ns. uint (drift n))"
  by (induction ns) simp_all

lemma sum_drift_unat: "sum_list (map drift ns) = of_nat (\<Sum>n\<leftarrow>ns. unat (drift n))"
  by (induction ns) simp_all

lemma valid_sum_drifts:
  assumes "valid t"
  shows "(\<Sum>n\<leftarrow>t. unat (drift n)) = length t"
proof -
  from assms have "closes 0 t" by (simp add: valid_closes)
  then have "(\<Sum>n\<leftarrow>t. uint (drift n)) = int (length t)" by (rule closes_sum_drifts)
  then have "int (\<Sum>n\<leftarrow>t. unat (drift n)) = int (length t)" by (simp only: sum_unat_uint)
  then show ?thesis by simp
qed

text \<open>
  Claim C1, as stated, fails: \<open>insert_child_tree\<close> asserts only that its position
  is not \<open>end()\<close> and takes any range of nodes. After \<open>push_root(1)\<close>, inserting
  the range of the two nodes with drifts 3 and 5 under the root returns, and leaves a
  last node with drift 0, which is not a leaf.
\<close>

theorem insert_child_tree_counterexample:
  "apply_op [] (PushRoot (1::int)) = Inr [\<lparr>drift = 1, data = 1\<rparr>] \<and>
   apply_op [\<lparr>drift = 1, data = (1::int)\<rparr>]
       (InsertChildTree 0 [\<lparr>drift = 3, data = 7\<rparr>, \<lparr>drift = 5, data = 8\<rparr>]) =
     Inr [\<lparr>drift = 0, data = 1\<rparr>, \<lparr>drift = 3, data = 7\<rparr>, \<lparr>drift = 0, data = 8\<rparr>] \<and>
   \<not> is_leaf (last [\<lparr>drift = 0, data = (1::int)\<rparr>, \<lparr>drift = 3, data = 7\<rparr>, \<lparr>drift = 0, data = 8\<rparr>])"
  by (simp add: push_root_def set_drift_def back_node_def insert_child_tree_def tree_of_def
      insert_child_tree_loop.simps is_leaf_def)

text \<open>
  Claim C1, amended. In every state reached from the empty tree by calls of
  \<open>push_root\<close>, \<open>push_back_drifted\<close>, \<open>push_back_child\<close>,
  \<open>push_back_sibling\<close>, \<open>push_back_level\<close>, \<open>pop_back\<close>,
  \<open>insert_first_child\<close>, \<open>insert_child_tree\<close>, \<open>insert_sibling\<close>,
  \<open>erase_leaf\<close> and \<open>erase_subtree\<close> that return (no assertion fails and no
  node outside the vector is accessed), where each range given to
  \<open>insert_child_tree\<close> is a drift encoding with no node above the level of its first
  node and the vector stays within what \<open>size_type\<close> counts, the drifts add up to the
  number of nodes (as numbers, and so in the 64-bit sum the test computes), and a
  non-empty tree ends in a leaf.
\<close>

theorem reachable_invariant:
  assumes "reachable t"
  shows "(\<Sum>n\<leftarrow>t. unat (drift n)) = length t \<and>
         sum_list (map drift t) = of_nat (length t) \<and>
         (t \<noteq> [] \<longrightarrow> is_leaf (last t))"
proof -
  from assms have v: "valid t" by (rule reachable_valid)
  then have s: "(\<Sum>n\<leftarrow>t. unat (drift n)) = length t" by (rule valid_sum_drifts)
  moreover have "sum_list (map drift t) = of_nat (length t)"
    using sum_drift_unat [of t] s by simp
  moreover have "is_leaf (last t)" if "t \<noteq> []"
    using v that closes_last_leaf [of t] by (simp add: valid_closes)
  ultimately show ?thesis by blast
qed

theorem reachable_invariant_witness:
  "reachable [\<lparr>drift = 0, data = (1::int)\<rparr>, \<lparr>drift = 0, data = 7\<rparr>, \<lparr>drift = 3, data = 8\<rparr>] \<and>
   (\<Sum>n\<leftarrow>[\<lparr>drift = 0, data = (1::int)\<rparr>, \<lparr>drift = 0, data = 7\<rparr>, \<lparr>drift = 3, data = 8\<rparr>].
      unat (drift n)) = 3 \<and>
   is_leaf \<lparr>drift = 3, data = (8::int)\<rparr>"
proof -
  have r1: "reachable [\<lparr>drift = 1, data = (1::int)\<rparr>]"
    using reachable.step [OF reachable.empty, of "PushRoot (1::int)" "[\<lparr>drift = 1, data = 1\<rparr>]"]
    by (simp add: push_root_Nil)
  have "insert_child_tree [\<lparr>drift = 1, data = (1::int)\<rparr>] 0
          [\<lparr>drift = 0, data = 7\<rparr>, \<lparr>drift = 2, data = 8\<rparr>] =
        Inr ([\<lparr>drift = 0, data = 1\<rparr>, \<lparr>drift = 0, data = 7\<rparr>, \<lparr>drift = 3, data = 8\<rparr>], 2)"
    by (simp add: insert_child_tree_def set_drift_def insert_child_tree_loop.simps)
  then have r2: "reachable [\<lparr>drift = 0, data = (1::int)\<rparr>, \<lparr>drift = 0, data = 7\<rparr>,
      \<lparr>drift = 3, data = 8\<rparr>]"
    using reachable.step [OF r1,
        of "InsertChildTree 0 [\<lparr>drift = 0, data = 7\<rparr>, \<lparr>drift = 2, data = 8\<rparr>]"
          "[\<lparr>drift = 0, data = 1\<rparr>, \<lparr>drift = 0, data = 7\<rparr>, \<lparr>drift = 3, data = 8\<rparr>]"]
    by (simp add: tree_of_def)
  show ?thesis using reachable_invariant [OF r2] r2 by simp
qed

section \<open>Removing a subtree\<close>

lemma erase_subtree_general:
  assumes "valid t" and "p < length t"
  shows "erase_subtree t p =
           Inr (take p t @
                (t ! p)\<lparr>drift := drift (t ! (p + subtree_size t p)) -
                   word_of_int (level_of t (p + subtree_size t p) - level_of t p)\<rparr> #
                drop (p + subtree_size t p + 1) t,
                p + 1)"
    and "p + subtree_size t p < length t"
    and "\<forall>j. is_descendant t p j \<longleftrightarrow> p < j \<and> j \<le> p + subtree_size t p"
proof -
  from assms(2) obtain pre x post where t: "t = pre @ x # post" and p: "length pre = p"
    and x: "x = t ! p"
    by (rule split_at)
  have sz: "subtree_size t p = span_len (1 - uint (drift x)) post"
    using subtree_size_span [of pre x post] by (simp add: t p)
  show "p + subtree_size t p < length t"
    using span_len_le_length [of "1 - uint (drift x)" post] by (simp add: sz) (simp add: t p [symmetric])
  show "\<forall>j. is_descendant t p j \<longleftrightarrow> p < j \<and> j \<le> p + subtree_size t p"
    using is_descendant_iff [of pre x post] by (simp add: sz) (simp add: t p [symmetric])
  show "erase_subtree t p =
           Inr (take p t @
                (t ! p)\<lparr>drift := drift (t ! (p + subtree_size t p)) -
                   word_of_int (level_of t (p + subtree_size t p) - level_of t p)\<rparr> #
                drop (p + subtree_size t p + 1) t,
                p + 1)"
  proof (cases "drift x = 0")
    case False
    then have "uint (drift x) \<noteq> 0" by (simp add: uint_0_iff)
    then have "1 - uint (drift x) \<le> 0" using uint_ge_0 [of "drift x"] by linarith
    then have k0: "subtree_size t p = 0" by (simp add: sz)
    have "erase_subtree (pre @ x # post) (length pre) = Inr (pre @ x # post, length pre + 1)"
      using False by (rule erase_subtree_leaf)
    moreover have "take (length pre) (pre @ x # post) = pre"
      and "drop (length pre + 1) (pre @ x # post) = post"
      and "(pre @ x # post) ! length pre = x"
      by simp_all
    ultimately show ?thesis
      unfolding k0 by (simp add: t p [symmetric])
  next
    case True
    define K where "K = span_len 1 post"
    from assms(1) have v: "valid (pre @ x # post)" by (simp add: t)
    then have c: "closes 0 (pre @ x # post)" and len: "length (pre @ x # post) < 2 ^ 64"
      by (simp_all add: valid_closes)
    note d = closes_midD [OF c]
    from d(3) True have "level_shift pre + 1 + level_shift post = 0" by (simp add: closes_def)
    with d(2) have b2: "1 + level_shift post \<le> 0" by simp
    have K: "0 < K" "K \<le> length post"
      using span_end [of 1 post, OF _ b2] by (simp_all add: K_def)
    then obtain i where i: "K = Suc i" by (cases K) auto
    have kK: "subtree_size t p = Suc i" using True by (simp add: sz K_def [symmetric] i)
    have e: "erase_subtree (pre @ x # post) (length pre) =
        Inr (pre @ x\<lparr>drift := drift (post ! i) - word_of_int (1 + level_shift (take i post))\<rparr> #
               drop (Suc i) post, length pre + 1)"
      using erase_subtree_inner [OF v True] by (simp add: K_def [symmetric] i del: of_int_add)
    have "level_of (pre @ x # post) (length pre + 1 + i) - level_of (pre @ x # post) (length pre)
        = 1 + level_shift (take i post)"
      using True by (simp only: level_of_mid) simp
    moreover have "(pre @ x # post) ! (length pre + Suc i) = post ! i"
      by (simp add: nth_append)
    moreover have "take (length pre) (pre @ x # post) = pre"
      and "drop (length pre + Suc i + 1) (pre @ x # post) = drop (Suc i) post"
      and "(pre @ x # post) ! length pre = x"
      by simp_all
    ultimately show ?thesis
      unfolding kK using e by (simp add: t p [symmetric] del: of_int_add)
  qed
qed


lemma scenario1_erase_5:
  "erase_subtree scenario1_tree 4 =
     Inr ([\<lparr>drift = 0, data = 1\<rparr>, \<lparr>drift = 0, data = 2\<rparr>, \<lparr>drift = 1, data = 3\<rparr>,
           \<lparr>drift = 2, data = 4\<rparr>, \<lparr>drift = 2, data = 5\<rparr>], 5)"
  by (simp add: erase_subtree_def scenario1_tree_def set_drift_def st_eval)

lemma scenario1_valid: "valid scenario1_tree"
  by (simp add: valid_def scenario1_tree_def level_of_def level_shift_def)

lemma scenario1_size_1: "subtree_size scenario1_tree 1 = 2"
  by (simp add: subtree_size_def is_descendant_def scenario1_tree_def level_of_def
      level_shift_def upt_rec)

text \<open>
  Claim C4, as stated, fails in its last part: the tree of the six calls has six nodes,
  and \<open>erase_subtree\<close> at the node with data 5 removes one of them, which leaves
  five nodes, not four.
\<close>

theorem erase_subtree_scenario_counterexample:
  "erase_subtree scenario1_tree 4 =
     Inr ([\<lparr>drift = 0, data = 1\<rparr>, \<lparr>drift = 0, data = 2\<rparr>, \<lparr>drift = 1, data = 3\<rparr>,
           \<lparr>drift = 2, data = 4\<rparr>, \<lparr>drift = 2, data = 5\<rparr>], 5) \<and>
   length [\<lparr>drift = 0, data = 1\<rparr>, \<lparr>drift = 0, data = 2\<rparr>, \<lparr>drift = 1, data = 3\<rparr>,
           \<lparr>drift = 2, data = 4\<rparr>, \<lparr>drift = 2, data = (5::int)\<rparr>] \<noteq> 4"
  using scenario1_erase_5 by simp

text \<open>
  Claim C4, amended. On a valid tree, \<open>erase_subtree\<close> with the view anchored at the
  node position \<open>p\<close> returns; it keeps the nodes up to \<open>p\<close> and removes the
  \<open>k\<close> nodes after \<open>p\<close>, which are exactly the descendants of \<open>p\<close>; the anchor
  stays, with its drift set to the drift of the last removed node minus the depth of
  that node below the anchor (a child of the anchor has depth 1; with no descendant the
  anchor keeps its drift); the iterator returned is \<open>p + 1\<close>. On the tree of the six
  calls, anchored at the node with data 5, it removes only the node with data 6 and
  leaves five nodes, the node with data 5 now a leaf.
\<close>

theorem erase_subtree_correct:
  "(valid t \<and> p < length t \<longrightarrow>
      erase_subtree t p =
        Inr (take p t @
             (t ! p)\<lparr>drift := drift (t ! (p + subtree_size t p)) -
                word_of_int (level_of t (p + subtree_size t p) - level_of t p)\<rparr> #
             drop (p + subtree_size t p + 1) t,
             p + 1) \<and>
      p + subtree_size t p < length t \<and>
      (\<forall>j. is_descendant t p j \<longleftrightarrow> p < j \<and> j \<le> p + subtree_size t p)) \<and>
   erase_subtree scenario1_tree 4 =
     Inr ([\<lparr>drift = 0, data = 1\<rparr>, \<lparr>drift = 0, data = 2\<rparr>, \<lparr>drift = 1, data = 3\<rparr>,
           \<lparr>drift = 2, data = 4\<rparr>, \<lparr>drift = 2, data = 5\<rparr>], 5) \<and>
   length [\<lparr>drift = 0, data = 1\<rparr>, \<lparr>drift = 0, data = 2\<rparr>, \<lparr>drift = 1, data = 3\<rparr>,
           \<lparr>drift = 2, data = 4\<rparr>, \<lparr>drift = 2, data = (5::int)\<rparr>] = 5 \<and>
   is_leaf \<lparr>drift = 2, data = (5::int)\<rparr>"
  using erase_subtree_general [of t p] scenario1_erase_5
  by (simp add: is_leaf_def)

theorem erase_subtree_correct_witness:
  "valid scenario1_tree \<and> 1 < length scenario1_tree \<and>
   subtree_size scenario1_tree 1 = 2 \<and>
   erase_subtree scenario1_tree 1 =
     Inr ([\<lparr>drift = 0, data = 1\<rparr>, \<lparr>drift = 1, data = 2\<rparr>, \<lparr>drift = 0, data = 5\<rparr>,
           \<lparr>drift = 3, data = 6\<rparr>], 2) \<and>
   is_descendant scenario1_tree 1 3 \<and> \<not> is_descendant scenario1_tree 1 4"
proof -
  have prem: "valid scenario1_tree \<and> 1 < length scenario1_tree"
    using scenario1_valid by (simp add: scenario1_tree_def)
  note c = mp [OF conjunct1 [OF erase_subtree_correct [of scenario1_tree 1]] prem,
      unfolded scenario1_size_1]
  from c have "erase_subtree scenario1_tree 1 =
     Inr ([\<lparr>drift = 0, data = 1\<rparr>, \<lparr>drift = 1, data = 2\<rparr>, \<lparr>drift = 0, data = 5\<rparr>,
           \<lparr>drift = 3, data = 6\<rparr>], 2)"
    by (simp add: scenario1_tree_def level_of_def level_shift_def)
  moreover from c have "is_descendant scenario1_tree 1 3 \<and> \<not> is_descendant scenario1_tree 1 4"
    by simp
  ultimately show ?thesis
    using prem scenario1_size_1 by blast
qed

section \<open>A new root\<close>

lemma span_len_all: "levels_ok l ns \<Longrightarrow> span_len (l + 1) ns = length ns"
proof (induction ns arbitrary: l)
  case Nil
  show ?case by simp
next
  case (Cons n ns)
  then have "0 \<le> l" and "levels_ok (l + 1 - uint (drift n)) ns" by simp_all
  then show ?case using Cons.IH [of "l + 1 - uint (drift n)"] by (simp add: algebra_simps)
qed

lemma st_walk_end: "st_walk t \<lparr>it_m = c, level_m = 0\<rparr> = Inr []"
  by (subst st_walk.simps) simp

lemma push_root_data: "map data (push_root t v) = v # map data t"
proof (cases "t = []")
  case True
  then show ?thesis by (simp add: push_root_Nil)
next
  case False
  then obtain xs x where "t = xs @ [x]" by (metis append_butlast_last_id)
  then show ?thesis by (simp add: push_root_snoc)
qed

lemma push_root_subtree:
  assumes "valid t" and "length (push_root t v) < 2 ^ 64"
  shows "subtree_nodes (push_root t v) 0 = Inr (tl (push_root t v))"
    and "\<forall>j. is_descendant (push_root t v) 0 j \<longleftrightarrow> 0 < j \<and> j < length (push_root t v)"
proof -
  have "subtree_nodes (push_root t v) 0 = Inr (tl (push_root t v)) \<and>
      (\<forall>j. is_descendant (push_root t v) 0 j \<longleftrightarrow> 0 < j \<and> j < length (push_root t v))"
  proof (cases "t = []")
    case True
    have "\<not> is_descendant [\<lparr>drift = 1, data = v\<rparr>] 0 j" for j
      by (simp add: is_descendant_def)
    then show ?thesis
      using True by (auto simp: push_root_Nil subtree_nodes_def st_iterator_at_def st_walk_end)
  next
    case False
    then obtain xs x where t: "t = xs @ [x]" by (metis append_butlast_last_id)
    let ?ns = "xs @ [x\<lparr>drift := drift x + 1\<rparr>]"
    let ?r = "\<lparr>drift = 0, data = v\<rparr>"
    have pr: "push_root t v = ?r # ?ns" by (simp add: t push_root_snoc)
    from assms have "valid (?r # ?ns)" unfolding pr [symmetric] by (rule valid_push_root)
    then have c: "closes 0 (?r # ?ns)" and len: "length (?r # ?ns) < 2 ^ 64"
      by (simp_all add: valid_closes)
    from c have "closes 1 ?ns" by simp
    then have ok: "levels_ok 1 ?ns" and sh: "1 + level_shift ?ns = 0"
      by (simp_all add: closes_def)
    from assms(1) have "levels_ok 0 xs" and "0 \<le> level_shift xs"
      by (simp_all add: t valid_closes)
    then have "levels_ok 0 ?ns" by simp
    then have sp: "span_len 1 ?ns = length ?ns"
      using span_len_all [of 0 ?ns] by simp
    have it: "st_iterator_at (?r # ?ns) 0 = Inr \<lparr>it_m = Some (Suc 0), level_m = 1\<rparr>"
      by (simp add: st_iterator_at_def)
    have "st_walk (?r # ?ns) \<lparr>it_m = Some (Suc 0), level_m = 1\<rparr> =
        Inr (take (span_len (uint (1::64 word)) ?ns) ?ns)"
    proof (rule st_walk_run)
      show "drop (Suc 0) (?r # ?ns) = ?ns" by simp
      show "(1::64 word) \<noteq> 0" by simp
      show "uint (1::64 word) + int (length ?ns) < 2 ^ 64" using len by simp
      show "uint (1::64 word) + level_shift ?ns \<le> 0" using sh by simp
    qed
    then have walk: "st_walk (?r # ?ns) \<lparr>it_m = Some (Suc 0), level_m = 1\<rparr> = Inr ?ns"
      using sp by simp
    have "is_descendant (?r # ?ns) 0 j \<longleftrightarrow> 0 < j \<and> j < length (?r # ?ns)" for j
      using is_descendant_iff [of "[]" ?r ?ns j] sp by auto
    then show ?thesis
      unfolding pr by (simp add: subtree_nodes_def it walk)
  qed
  then show "subtree_nodes (push_root t v) 0 = Inr (tl (push_root t v))"
    and "\<forall>j. is_descendant (push_root t v) 0 j \<longleftrightarrow> 0 < j \<and> j < length (push_root t v)"
    by blast+
qed


lemma push_root_length [simp]: "length (push_root t v) = Suc (length t)"
  by (simp add: push_root_def Let_def)

text \<open>
  Claim C6, as stated, fails in its last part: on the empty tree \<open>push_root\<close> puts the
  node in with drift 0 and then adds 1 to the drift of the last node, which is that
  node. The single first node has drift 1: it is a leaf, as the invariant asks.
\<close>

theorem push_root_empty_counterexample:
  "push_root [] (1::int) = [\<lparr>drift = 1, data = 1\<rparr>] \<and>
   drift (push_root [] (1::int) ! 0) \<noteq> 0"
  by (simp add: push_root_Nil)

text \<open>
  Claim C6, amended. \<open>push_root\<close> puts the new node in front of the nodes there
  were, which stay in their order, with drift 0 when there were nodes, and adds 1 to the
  drift of the last node. On a valid tree (the new size within \<open>size_type\<close>) the
  result is valid, the view anchored at the new first node walks all the other nodes,
  and every node behind the first is its descendant. On the empty tree the result is
  the single node with drift 1.
\<close>

theorem push_root_correct:
  "push_root [] v = [\<lparr>drift = 1, data = v\<rparr>] \<and>
   (t \<noteq> [] \<longrightarrow>
      push_root t v =
        \<lparr>drift = 0, data = v\<rparr> # butlast t @ [(last t)\<lparr>drift := drift (last t) + 1\<rparr>]) \<and>
   map data (push_root t v) = v # map data t \<and>
   (valid t \<and> length t + 1 < 2 ^ 64 \<longrightarrow>
      valid (push_root t v) \<and>
      subtree_nodes (push_root t v) 0 = Inr (tl (push_root t v)) \<and>
      (\<forall>j. is_descendant (push_root t v) 0 j \<longleftrightarrow> 0 < j \<and> j < length (push_root t v)))"
proof -
  have "push_root t v =
      \<lparr>drift = 0, data = v\<rparr> # butlast t @ [(last t)\<lparr>drift := drift (last t) + 1\<rparr>]"
    if "t \<noteq> []"
  proof -
    from that obtain xs x where "t = xs @ [x]" by (metis append_butlast_last_id)
    then show ?thesis by (simp add: push_root_snoc)
  qed
  moreover have "valid (push_root t v) \<and>
      subtree_nodes (push_root t v) 0 = Inr (tl (push_root t v)) \<and>
      (\<forall>j. is_descendant (push_root t v) 0 j \<longleftrightarrow> 0 < j \<and> j < length (push_root t v))"
    if "valid t" and "length t + 1 < 2 ^ 64"
  proof -
    from that(2) have "length (push_root t v) < 2 ^ 64" by simp
    with that(1) show ?thesis
      using valid_push_root [of t v] push_root_subtree [of t v] by blast
  qed
  ultimately show ?thesis
    using push_root_Nil [of v] push_root_data [of t v] by blast
qed

theorem push_root_correct_witness:
  "valid [\<lparr>drift = 1, data = (2::int)\<rparr>] \<and>
   push_root [\<lparr>drift = 1, data = (2::int)\<rparr>] 1 = [\<lparr>drift = 0, data = 1\<rparr>, \<lparr>drift = 2, data = 2\<rparr>] \<and>
   valid (push_root [\<lparr>drift = 1, data = (2::int)\<rparr>] 1) \<and>
   subtree_nodes (push_root [\<lparr>drift = 1, data = (2::int)\<rparr>] 1) 0 = Inr [\<lparr>drift = 2, data = 2\<rparr>]"
proof -
  have v: "valid [\<lparr>drift = 1, data = (2::int)\<rparr>]"
    by (simp add: valid_closes)
  have l: "length [\<lparr>drift = 1, data = (2::int)\<rparr>] + 1 < (2::nat) ^ 64" by simp
  note c = push_root_correct [of 1 "[\<lparr>drift = 1, data = (2::int)\<rparr>]"]
  from c have p: "push_root [\<lparr>drift = 1, data = (2::int)\<rparr>] 1 =
      [\<lparr>drift = 0, data = 1\<rparr>, \<lparr>drift = 2, data = 2\<rparr>]"
    by simp
  from c v l have "valid (push_root [\<lparr>drift = 1, data = (2::int)\<rparr>] 1) \<and>
      subtree_nodes (push_root [\<lparr>drift = 1, data = (2::int)\<rparr>] 1) 0 =
        Inr (tl (push_root [\<lparr>drift = 1, data = (2::int)\<rparr>] 1))"
    by blast
  with v p show ?thesis by simp
qed

section \<open>A new first child\<close>

text \<open>
  Claim C7, as stated, fails: the new child does not get the drift the target had, it
  gets that drift plus 1. Under the single node with drift 1 the new child has drift 2.
\<close>

theorem insert_first_child_counterexample:
  "insert_first_child [\<lparr>drift = 1, data = (1::int)\<rparr>] 0 2 =
     Inr ([\<lparr>drift = 0, data = 1\<rparr>, \<lparr>drift = 2, data = 2\<rparr>], 1) \<and>
   drift \<lparr>drift = 2, data = (2::int)\<rparr> \<noteq> drift \<lparr>drift = 1, data = (1::int)\<rparr>"
  by (simp add: insert_first_child_def set_drift_def)

text \<open>
  Claim C7, amended. At a node position \<open>i\<close> of the tree, \<open>insert_first_child\<close>
  puts the new node right behind the node at \<open>i\<close> and returns its position; the nodes
  before and behind keep their place and drift; the target's drift becomes 0, so that
  the new node is one level below it, its first child; and the new node's drift is 1 plus
  the drift the target had.
\<close>

theorem insert_first_child_correct:
  "i < length t \<longrightarrow>
     insert_first_child t i v =
       Inr (take i t @ (t ! i)\<lparr>drift := 0\<rparr> # \<lparr>drift = 1 + drift (t ! i), data = v\<rparr> #
              drop (i + 1) t, i + 1) \<and>
     level_of (take i t @ (t ! i)\<lparr>drift := 0\<rparr> # \<lparr>drift = 1 + drift (t ! i), data = v\<rparr> #
              drop (i + 1) t) (i + 1) =
       level_of (take i t @ (t ! i)\<lparr>drift := 0\<rparr> # \<lparr>drift = 1 + drift (t ! i), data = v\<rparr> #
              drop (i + 1) t) i + 1"
proof
  assume "i < length t"
  then obtain pre x post where t: "t = pre @ x # post" and i: "length pre = i"
    and x: "x = t ! i"
    by (rule split_at)
  have "take (length pre) (pre @ x # post) = pre"
    and "drop (length pre + 1) (pre @ x # post) = post"
    and "(pre @ x # post) ! length pre = x"
    by simp_all
  moreover have "level_of (pre @ x\<lparr>drift := 0\<rparr> # \<lparr>drift = 1 + drift x, data = v\<rparr> # post)
        (length pre + 1) =
      level_of (pre @ x\<lparr>drift := 0\<rparr> # \<lparr>drift = 1 + drift x, data = v\<rparr> # post) (length pre) + 1"
    by (simp add: level_of_def)
  ultimately show "insert_first_child t i v =
       Inr (take i t @ (t ! i)\<lparr>drift := 0\<rparr> # \<lparr>drift = 1 + drift (t ! i), data = v\<rparr> #
              drop (i + 1) t, i + 1) \<and>
     level_of (take i t @ (t ! i)\<lparr>drift := 0\<rparr> # \<lparr>drift = 1 + drift (t ! i), data = v\<rparr> #
              drop (i + 1) t) (i + 1) =
       level_of (take i t @ (t ! i)\<lparr>drift := 0\<rparr> # \<lparr>drift = 1 + drift (t ! i), data = v\<rparr> #
              drop (i + 1) t) i + 1"
    using insert_first_child_at [of pre x post v] unfolding t i [symmetric] by simp
qed

theorem insert_first_child_correct_witness:
  "insert_first_child scenario1_tree 1 9 =
     Inr ([\<lparr>drift = 0, data = 1\<rparr>, \<lparr>drift = 0, data = 2\<rparr>, \<lparr>drift = 1, data = 9\<rparr>,
           \<lparr>drift = 1, data = 3\<rparr>, \<lparr>drift = 2, data = 4\<rparr>, \<lparr>drift = 0, data = 5\<rparr>,
           \<lparr>drift = 3, data = 6\<rparr>], 2)"
proof -
  have l: "1 < length scenario1_tree" by (simp add: scenario1_tree_def)
  note c = conjunct1 [OF mp [OF insert_first_child_correct [of 1 scenario1_tree 9] l]]
  then show ?thesis by (simp add: scenario1_tree_def)
qed

end
